theory Spec2Isabelle
  imports Complex_Main "HOL-Library.Signed_Division" "HOL-Library.Word"
begin

section \<open>Piecewise functions of lib2geom (piecewise.h)\<close>

text \<open>
  The class template \<open>Piecewise<T>\<close> is embedded as a record of its two vectors. A
  \<open>double\<close> is a \<open>real\<close> (arithmetic taken exact, no NaN or infinity), \<open>unsigned\<close> and
  \<open>int\<close> indices are \<open>nat\<close> and \<open>int\<close> without wrap-around (the source itself does not
  plan for huge cut sequences). Two things the C++ leaves to the run time are values of the
  model: an \<open>assert\<close> that fails is \<open>Inl AssertFailed\<close>, and an \<open>operator[]\<close>,
  \<open>front()\<close> or \<open>back()\<close> outside the vector is \<open>Inl OutOfBounds\<close>.
\<close>

datatype error = AssertFailed | OutOfBounds

definition bind_err :: "error + 'a \<Rightarrow> ('a \<Rightarrow> error + 'b) \<Rightarrow> error + 'b" where
  "bind_err m f = (case m of Inl e \<Rightarrow> Inl e | Inr x \<Rightarrow> f x)"

lemma bind_err_Inr [simp]: "bind_err (Inr x) f = f x"
  by (simp add: bind_err_def)

lemma bind_err_Inl [simp]: "bind_err (Inl e) f = Inl e"
  by (simp add: bind_err_def)

lemma bind_err_cong [fundef_cong]:
  "m = m' \<Longrightarrow> (\<And>x. m' = Inr x \<Longrightarrow> f x = f' x) \<Longrightarrow> bind_err m f = bind_err m' f'"
  by (cases m') (simp_all add: bind_err_def)

lemma bind_err_weak_cong: "m = m' \<Longrightarrow> bind_err m f = bind_err m' f"
  by simp

lemma bind_err_eq_Inr:
  "bind_err m f = Inr y \<longleftrightarrow> (\<exists>x. m = Inr x \<and> f x = Inr y)"
  by (cases m) simp_all

definition assert_that :: "bool \<Rightarrow> error + unit" where
  "assert_that b = (if b then Inr () else Inl AssertFailed)"

lemma assert_that_True [simp]: "b \<Longrightarrow> assert_that b = Inr ()"
  by (simp add: assert_that_def)

lemma assert_that_False [simp]: "\<not> b \<Longrightarrow> assert_that b = Inl AssertFailed"
  by (simp add: assert_that_def)

text \<open>\<open>v[i]\<close> for an unsigned and for an int index, \<open>v.front()\<close> and \<open>v.back()\<close>.\<close>

definition rd :: "'a list \<Rightarrow> nat \<Rightarrow> error + 'a" where
  "rd xs i = (if i < length xs then Inr (xs ! i) else Inl OutOfBounds)"

definition rdi :: "'a list \<Rightarrow> int \<Rightarrow> error + 'a" where
  "rdi xs i = (if 0 \<le> i \<and> i < int (length xs) then Inr (xs ! nat i) else Inl OutOfBounds)"

definition vfront :: "'a list \<Rightarrow> error + 'a" where
  "vfront xs = (if xs = [] then Inl OutOfBounds else Inr (hd xs))"

definition vback :: "'a list \<Rightarrow> error + 'a" where
  "vback xs = (if xs = [] then Inl OutOfBounds else Inr (last xs))"

lemma rd_in [simp]: "i < length xs \<Longrightarrow> rd xs i = Inr (xs ! i)"
  by (simp add: rd_def)

lemma rd_out [simp]: "length xs \<le> i \<Longrightarrow> rd xs i = Inl OutOfBounds"
  by (simp add: rd_def)

lemma rdi_in [simp]: "0 \<le> i \<Longrightarrow> i < int (length xs) \<Longrightarrow> rdi xs i = Inr (xs ! nat i)"
  by (simp add: rdi_def)

lemma rdi_eq_Inr: "rdi xs i = Inr x \<longleftrightarrow> 0 \<le> i \<and> i < int (length xs) \<and> x = xs ! nat i"
  by (auto simp: rdi_def)

lemma vfront_in [simp]: "xs \<noteq> [] \<Longrightarrow> vfront xs = Inr (hd xs)"
  by (simp add: vfront_def)

lemma vfront_Nil [simp]: "vfront [] = Inl OutOfBounds"
  by (simp add: vfront_def)

lemma vback_in [simp]: "xs \<noteq> [] \<Longrightarrow> vback xs = Inr (last xs)"
  by (simp add: vback_def)

lemma vback_Nil [simp]: "vback [] = Inl OutOfBounds"
  by (simp add: vback_def)

subsection \<open>The segment capability\<close>

text \<open>
  \<open>T\<close> is a template parameter checked against \<open>FragmentConcept\<close> (concepts.h is not
  part of the sources). Its operations are passed as a record; the output type is
  \<open>double\<close>, as for \<open>Piecewise<SBasis>\<close>.
\<close>

record 's Fragment =
  seg_at :: "'s \<Rightarrow> real \<Rightarrow> real"
  seg_at0 :: "'s \<Rightarrow> real"
  seg_at1 :: "'s \<Rightarrow> real"
  seg_portion :: "'s \<Rightarrow> real \<Rightarrow> real \<Rightarrow> 's"
  seg_const :: "real \<Rightarrow> 's"
  seg_default :: "'s"
  seg_offset :: "'s \<Rightarrow> real \<Rightarrow> 's"
  seg_scale :: "'s \<Rightarrow> real \<Rightarrow> 's"
  seg_div :: "'s \<Rightarrow> real \<Rightarrow> 's"
  seg_add :: "'s \<Rightarrow> 's \<Rightarrow> 's"
  seg_sub :: "'s \<Rightarrow> 's \<Rightarrow> 's"
  seg_mul :: "'s \<Rightarrow> 's \<Rightarrow> 's"
  seg_integral :: "'s \<Rightarrow> 's"
  seg_derivative :: "'s \<Rightarrow> 's"

subsection \<open>The container\<close>

record 's Piecewise =
  cuts :: "real list"
  segs :: "'s list"

definition Piecewise_empty :: "'s Piecewise" where
  "Piecewise_empty = \<lparr>cuts = [], segs = []\<rparr>"

definition size_pw :: "'s Piecewise \<Rightarrow> nat" where
  "size_pw pw = length (segs pw)"

definition empty_pw :: "'s Piecewise \<Rightarrow> bool" where
  "empty_pw pw = (segs pw = [])"

definition push_cut :: "real \<Rightarrow> 's Piecewise \<Rightarrow> error + 's Piecewise" where
  "push_cut c pw =
     bind_err (assert_that (cuts pw = [] \<or> c > last (cuts pw)))
       (\<lambda>_. Inr (pw\<lparr>cuts := cuts pw @ [c]\<rparr>))"

definition push_seg :: "'s \<Rightarrow> 's Piecewise \<Rightarrow> 's Piecewise" where
  "push_seg s pw = pw\<lparr>segs := segs pw @ [s]\<rparr>"

text \<open>
  \<open>push\<close> asserts \<open>cuts.size() - segs.size() == 1\<close> in \<open>size_t\<close>: the difference wraps,
  and is 1 exactly when there is one cut more than segments.
\<close>

definition push :: "'s \<Rightarrow> real \<Rightarrow> 's Piecewise \<Rightarrow> error + 's Piecewise" where
  "push s to pw =
     bind_err (assert_that (length (cuts pw) = length (segs pw) + 1))
       (\<lambda>_. push_cut to (push_seg s pw))"

definition Piecewise_seg :: "'s \<Rightarrow> 's Piecewise" where
  "Piecewise_seg s = \<lparr>cuts = [0, 1], segs = [s]\<rparr>"

definition Piecewise_const :: "'s Fragment \<Rightarrow> real \<Rightarrow> 's Piecewise" where
  "Piecewise_const ops v = \<lparr>cuts = [0, 1], segs = [seg_const ops v]\<rparr>"

text \<open>\<open>invariants()\<close>: one cut more than segments (or both empty), cuts in strict order.\<close>

definition invariants :: "'s Piecewise \<Rightarrow> bool" where
  "invariants pw \<longleftrightarrow>
     (length (segs pw) + 1 = length (cuts pw) \<or> (segs pw = [] \<and> cuts pw = [])) \<and>
     list_all (\<lambda>i. \<not> (cuts pw ! i \<ge> cuts pw ! (i + 1))) [0..<length (segs pw)]"

lemma invariants_iff:
  "invariants pw \<longleftrightarrow>
     (length (segs pw) + 1 = length (cuts pw) \<or> (segs pw = [] \<and> cuts pw = [])) \<and>
     (\<forall>i < length (segs pw). cuts pw ! i < cuts pw ! (i + 1))"
  by (auto simp: invariants_def list_all_iff not_le)

subsection \<open>segN, segT, valueAt\<close>

definition mid_of :: "int \<Rightarrow> int \<Rightarrow> int" where
  "mid_of low high = (high + low) sdiv 2"

lemma mid_of_bounds: "low < high \<Longrightarrow> low \<le> mid_of low high \<and> mid_of low high \<le> high"
  by (auto simp: mid_of_def signed_divide_int_def sgn_if)

function segN_loop :: "real list \<Rightarrow> real \<Rightarrow> int \<Rightarrow> int \<Rightarrow> error + int" where
  "segN_loop cs t low high =
     (if low < high then
        bind_err (rdi cs (mid_of low high)) (\<lambda>mv.
          if mv < t then
            bind_err (rdi cs (mid_of low high + 1)) (\<lambda>nx.
              if t < nx then Inr (mid_of low high)
              else segN_loop cs t (mid_of low high + 1) high)
          else if t < mv then
            bind_err (rdi cs (mid_of low high - 1)) (\<lambda>pv.
              if pv < t then Inr (mid_of low high - 1)
              else segN_loop cs t low (mid_of low high - 1))
          else Inr (mid_of low high))
      else Inr low)"
  by pat_completeness auto
termination
proof (relation "measure (\<lambda>(cs, t, low, high). nat (high - low))", goal_cases)
  case 1
  show ?case by simp
next
  case (2 cs t low high mv nx)
  then show ?case using mid_of_bounds [of low high] by simp
next
  case (3 cs t low high mv pv)
  then show ?case using mid_of_bounds [of low high] by simp
qed

declare segN_loop.simps [simp del]

text \<open>
  \<open>segN(t, low, high)\<close>. The result is \<open>unsigned\<close>; \<open>size() - 1\<close> on a function without
  segments wraps to \<open>UINT_MAX\<close>.
\<close>

definition segN :: "'s Piecewise \<Rightarrow> real \<Rightarrow> int \<Rightarrow> int \<Rightarrow> error + nat" where
  "segN pw t low high =
     bind_err (rd (cuts pw) 0) (\<lambda>c0.
       if t < c0 then Inr 0
       else bind_err (rd (cuts pw) (size_pw pw)) (\<lambda>cn.
         if t \<ge> cn then Inr (if size_pw pw = 0 then 4294967295 else size_pw pw - 1)
         else bind_err
           (segN_loop (cuts pw) t low (if high = - 1 then int (size_pw pw) else high))
           (\<lambda>n. Inr (nat n))))"

definition segT :: "'s Piecewise \<Rightarrow> real \<Rightarrow> int \<Rightarrow> error + real" where
  "segT pw t i =
     bind_err (if i = - 1 then bind_err (segN pw t 0 (- 1)) (\<lambda>n. Inr (int n)) else Inr i)
       (\<lambda>i. bind_err (rdi (cuts pw) i) (\<lambda>ci.
          bind_err (rdi (cuts pw) (i + 1)) (\<lambda>cj.
            Inr ((t - ci) / (cj - ci)))))"

definition valueAt :: "'s Fragment \<Rightarrow> 's Piecewise \<Rightarrow> real \<Rightarrow> error + real" where
  "valueAt ops pw t =
     bind_err (segN pw t 0 (- 1)) (\<lambda>n.
       bind_err (rd (segs pw) n) (\<lambda>s.
         bind_err (segT pw t (int n)) (\<lambda>u. Inr (seg_at ops s u))))"

subsection \<open>Domain transforms\<close>

text \<open>The loops of the domain transforms write \<open>cuts[i]\<close> for every \<open>i <= size()\<close>.\<close>

fun update_cuts :: "(real \<Rightarrow> real) \<Rightarrow> nat \<Rightarrow> nat \<Rightarrow> real list \<Rightarrow> error + real list" where
  "update_cuts f i 0 cs = Inr cs"
| "update_cuts f i (Suc k) cs =
     (if i < length cs then update_cuts f (Suc i) k (cs[i := f (cs ! i)])
      else Inl OutOfBounds)"

definition offsetDomain :: "real \<Rightarrow> 's Piecewise \<Rightarrow> error + 's Piecewise" where
  "offsetDomain o' pw =
     (if o' \<noteq> 0 then
        bind_err (update_cuts (\<lambda>c. c + o') 0 (size_pw pw + 1) (cuts pw))
          (\<lambda>cs. Inr (pw\<lparr>cuts := cs\<rparr>))
      else Inr pw)"

definition scaleDomain :: "real \<Rightarrow> 's Piecewise \<Rightarrow> error + 's Piecewise" where
  "scaleDomain s pw =
     bind_err (assert_that (s > 0)) (\<lambda>_.
       if s = 0 then Inr (pw\<lparr>cuts := [], segs := []\<rparr>)
       else bind_err (update_cuts (\<lambda>c. c * s) 0 (size_pw pw + 1) (cuts pw))
          (\<lambda>cs. Inr (pw\<lparr>cuts := cs\<rparr>)))"

lemma update_cuts_map:
  "i + k = length cs \<Longrightarrow> update_cuts f i k cs = Inr (take i cs @ map f (drop i cs))"
proof (induction k arbitrary: i cs)
  case 0
  then show ?case by simp
next
  case (Suc k)
  then have i: "i < length cs" by simp
  have "update_cuts f i (Suc k) cs = update_cuts f (Suc i) k (cs[i := f (cs ! i)])"
    using i by simp
  also have "\<dots> = Inr (take (Suc i) (cs[i := f (cs ! i)]) @ map f (drop (Suc i) (cs[i := f (cs ! i)])))"
    using Suc.prems by (intro Suc.IH) simp
  also have "take (Suc i) (cs[i := f (cs ! i)]) = take i cs @ [f (cs ! i)]"
    using i by (simp add: take_Suc_conv_app_nth)
  also have "drop (Suc i) (cs[i := f (cs ! i)]) = drop (Suc i) cs"
    by simp
  also have "(take i cs @ [f (cs ! i)]) @ map f (drop (Suc i) cs) = take i cs @ map f (drop i cs)"
    using i by (simp add: Cons_nth_drop_Suc [symmetric])
  finally show ?case .
qed

lemma scaleDomain_positive:
  "0 < s \<Longrightarrow> length (cuts pw) = length (segs pw) + 1 \<Longrightarrow>
   scaleDomain s pw = Inr (pw\<lparr>cuts := map (\<lambda>c. c * s) (cuts pw)\<rparr>)"
proof -
  assume s: "0 < s" and len: "length (cuts pw) = length (segs pw) + 1"
  have "update_cuts (\<lambda>c. c * s) 0 (size_pw pw + 1) (cuts pw) = Inr (map (\<lambda>c. c * s) (cuts pw))"
    using update_cuts_map [of 0 "size_pw pw + 1" "cuts pw" "\<lambda>c. c * s"] len
    by (simp del: update_cuts.simps add: size_pw_def)
  then show ?thesis
    using s unfolding scaleDomain_def by simp
qed

text \<open>
  C8. \<open>scaleDomain(s)\<close> multiplies every cut by \<open>s\<close>, and \<open>s == 0\<close> is meant to give the
  empty function (the comment above the method and its \<open>if(s == 0)\<close> branch say so). The
  method starts with \<open>assert(s > 0)\<close>, so with \<open>s = 0\<close> the assertion fails before the
  branch is reached: the call is a failure, on every function.
\<close>

theorem scaleDomain_zero_assert_fails: "scaleDomain 0 pw = Inl AssertFailed"
  by (simp add: scaleDomain_def)

subsection \<open>elem_portion, partition, portion\<close>

definition elem_portion :: "'s Fragment \<Rightarrow> 's Piecewise \<Rightarrow> nat \<Rightarrow> real \<Rightarrow> real \<Rightarrow> error + 's" where
  "elem_portion ops a i from to =
     bind_err (assert_that (i < size_pw a)) (\<lambda>_.
     bind_err (rd (cuts a) (i + 1)) (\<lambda>cj.
     bind_err (rd (cuts a) i) (\<lambda>ci.
     bind_err (rd (segs a) i) (\<lambda>s.
       Inr (seg_portion ops s ((from - ci) * (1 / (cj - ci))) ((to - ci) * (1 / (cj - ci))))))))"

text \<open>
  The first loop of \<open>partition\<close>. Its condition is
  \<open>c[ci] < pw.cuts.front() && ci < c.size()\<close>: \<open>c[ci]\<close> is read before \<open>ci\<close> is
  compared with the size. The result is the cut index reached and the function built so far.
\<close>

function partition_before ::
  "'s Fragment \<Rightarrow> 's Piecewise \<Rightarrow> real list \<Rightarrow> nat \<Rightarrow> 's Piecewise \<Rightarrow> error + (nat \<times> 's Piecewise)" where
  "partition_before ops pw c ci ret =
     bind_err (rd c ci) (\<lambda>x.
     bind_err (vfront (cuts pw)) (\<lambda>f.
       if x < f \<and> ci < length c then
         bind_err (if ci = length c - 1 then Inr True
                   else bind_err (rd c (ci + 1)) (\<lambda>y. Inr (y \<ge> f))) (\<lambda>isLast.
         bind_err (push_cut x ret) (\<lambda>ret1.
         bind_err (if isLast then Inr f else rd c (ci + 1)) (\<lambda>to.
         bind_err (elem_portion ops pw 0 x to) (\<lambda>s.
           partition_before ops pw c (ci + 1) (push_seg s ret1)))))
       else Inr (ci, ret)))"
  by pat_completeness auto
termination
  by (relation "measure (\<lambda>(ops, pw, c, ci, ret). length c - ci)") auto

declare partition_before.simps [simp del]

text \<open>The last loop: cuts beyond the domain extend the last segment.\<close>

function partition_after ::
  "'s Fragment \<Rightarrow> 's Piecewise \<Rightarrow> real list \<Rightarrow> nat \<Rightarrow> real \<Rightarrow> 's Piecewise \<Rightarrow> error + 's Piecewise" where
  "partition_after ops pw c ci prev ret =
     (if ci < length c then
        bind_err (rd c ci) (\<lambda>x.
          if x > prev then
            bind_err (elem_portion ops pw (size_pw pw - 1) prev x) (\<lambda>s.
            bind_err (push s x ret) (\<lambda>ret1.
              partition_after ops pw c (ci + 1) x ret1))
          else partition_after ops pw c (ci + 1) prev ret)
      else Inr ret)"
  by pat_completeness auto
termination
  by (relation "measure (\<lambda>(ops, pw, c, ci, prev, ret). length c - ci)") auto

declare partition_after.simps [simp del]

text \<open>
  The middle loop, over the segment index \<open>si\<close> and the cut index \<open>ci\<close>; when it ends
  the last loop runs. \<open>insert(end, begin + si, end)\<close> copies the rest of a vector.
\<close>

definition rest_from :: "'a list \<Rightarrow> nat \<Rightarrow> error + 'a list" where
  "rest_from xs i = (if i \<le> length xs then Inr (drop i xs) else Inl OutOfBounds)"

function partition_main ::
  "'s Fragment \<Rightarrow> 's Piecewise \<Rightarrow> real list \<Rightarrow> nat \<Rightarrow> nat \<Rightarrow> real \<Rightarrow> 's Piecewise \<Rightarrow> error + 's Piecewise" where
  "partition_main ops pw c si ci prev ret =
     (if si < size_pw pw \<and> ci \<le> length c then
        bind_err (if ci = length c then bind_err (rd (cuts pw) si) (\<lambda>x. Inr (prev \<le> x))
                  else Inr False) (\<lambda>exhausted.
        if exhausted then
          bind_err (rest_from (segs pw) si) (\<lambda>ss.
          bind_err (rest_from (cuts pw) (si + 1)) (\<lambda>cs.
            Inr (ret\<lparr>cuts := cuts ret @ cs, segs := segs ret @ ss\<rparr>)))
        else
          bind_err (if ci = length c then Inr True
                    else bind_err (rd c ci) (\<lambda>x.
                         bind_err (rd (cuts pw) (si + 1)) (\<lambda>y. Inr (x \<ge> y)))) (\<lambda>finalize.
          if finalize then
            bind_err (rd (cuts pw) si) (\<lambda>csi.
            bind_err (if prev > csi then
                        bind_err (rd (segs pw) si) (\<lambda>s.
                        bind_err (segT pw prev (int si)) (\<lambda>u. Inr (seg_portion ops s u 1)))
                      else rd (segs pw) si) (\<lambda>s.
            bind_err (rd (cuts pw) (si + 1)) (\<lambda>nx.
            bind_err (push_cut nx (push_seg s ret)) (\<lambda>ret1.
              partition_main ops pw c (si + 1) ci nx ret1))))
          else
            bind_err (rd c ci) (\<lambda>x.
            bind_err (rd (cuts pw) si) (\<lambda>csi.
              if x = csi then partition_main ops pw c si (ci + 1) prev ret
              else
                bind_err (elem_portion ops pw si prev x) (\<lambda>s.
                bind_err (push s x ret) (\<lambda>ret1.
                  partition_main ops pw c si (ci + 1) x ret1))))))
      else partition_after ops pw c ci prev ret)"
  by pat_completeness auto
termination
proof (relation "measure (\<lambda>(ops, pw, c, si, ci, prev, ret). (size_pw pw - si) + (length c - ci))",
    goal_cases)
  case 1
  show ?case by simp
next
  case 2
  then show ?case by auto
next
  case 3
  then show ?case by (auto split: if_splits)
next
  case 4
  then show ?case by (auto split: if_splits)
qed

declare partition_main.simps [simp del]

definition partition_pw :: "'s Fragment \<Rightarrow> 's Piecewise \<Rightarrow> real list \<Rightarrow> error + 's Piecewise" where
  "partition_pw ops pw c =
     (if c = [] then Inr pw
      else if empty_pw pw then
        Inr \<lparr>cuts = c, segs = replicate (length c - 1) (seg_default ops)\<rparr>
      else
        bind_err (partition_before ops pw c 0 Piecewise_empty) (\<lambda>(ci, ret).
        bind_err (rd (cuts pw) 0) (\<lambda>c0.
        bind_err (push_cut c0 ret) (\<lambda>ret1.
          partition_main ops pw c 0 ci c0 ret1))))"

text \<open>\<open>insert(end, begin + i, begin + j)\<close> copies the elements \<open>i\<close> to \<open>j - 1\<close>.\<close>

definition range_of :: "'a list \<Rightarrow> nat \<Rightarrow> nat \<Rightarrow> error + 'a list" where
  "range_of xs i j =
     (if i \<le> j \<and> j \<le> length xs then Inr (take (j - i) (drop i xs)) else Inl OutOfBounds)"

definition portion_pw :: "'s Fragment \<Rightarrow> 's Piecewise \<Rightarrow> real \<Rightarrow> real \<Rightarrow> error + 's Piecewise" where
  "portion_pw ops pw from to =
     (if empty_pw pw \<or> from = to then Inr Piecewise_empty
      else
        bind_err (segN pw (min from to) 0 (- 1)) (\<lambda>i.
        bind_err (push_cut (min from to) Piecewise_empty) (\<lambda>ret.
        bind_err (if i = size_pw pw - 1 then Inr True
                  else bind_err (rd (cuts pw) (i + 1)) (\<lambda>x. Inr (max from to < x))) (\<lambda>same.
        if same then
          bind_err (elem_portion ops pw i (min from to) (max from to)) (\<lambda>s.
            push s (max from to) ret)
        else
          bind_err (rd (segs pw) i) (\<lambda>s.
          bind_err (segT pw (min from to) (int i)) (\<lambda>u.
            let ret1 = push_seg (seg_portion ops s u 1) ret in
          bind_err (segN pw (max from to) (int (i + 1)) (- 1)) (\<lambda>fi.
          bind_err (range_of (segs pw) (i + 1) fi) (\<lambda>ss.
          bind_err (range_of (cuts pw) (i + 1) (fi + 1)) (\<lambda>cs.
            let ret2 = ret1\<lparr>cuts := cuts ret1 @ cs, segs := segs ret1 @ ss\<rparr> in
          bind_err (rd (segs pw) fi) (\<lambda>sf.
          bind_err (segT pw (max from to) (int fi)) (\<lambda>uf.
            let ret3 = push_seg (seg_portion ops sf 0 uf) ret2 in
          bind_err (vback (cuts ret3)) (\<lambda>b.
            if max from to \<noteq> b then push_cut (max from to) ret3 else Inr ret3))))))))))))"

lemma mid_of_nonneg: "0 \<le> low \<Longrightarrow> low < high \<Longrightarrow> low \<le> mid_of low high \<and> mid_of low high < high"
  unfolding mid_of_def signed_divide_int_def by (simp add: sgn_if) linarith

lemma invariants_sorted:
  "invariants pw \<Longrightarrow> segs pw \<noteq> [] \<Longrightarrow>
   sorted_wrt (<) (cuts pw) \<and> length (cuts pw) = length (segs pw) + 1"
proof -
  assume inv: "invariants pw" and ne: "segs pw \<noteq> []"
  from inv ne have len: "length (cuts pw) = length (segs pw) + 1"
    by (auto simp: invariants_iff)
  from inv have "\<forall>i. Suc i < length (cuts pw) \<longrightarrow> cuts pw ! i < cuts pw ! Suc i"
    using len by (auto simp: invariants_iff)
  then have "sorted_wrt (<) (cuts pw)"
    by (simp add: sorted_wrt_iff_nth_Suc_transp)
  with len show ?thesis by simp
qed

lemma segN_loop_correct:
  "sorted_wrt (<) cs \<Longrightarrow> 0 \<le> low \<Longrightarrow> low \<le> high \<Longrightarrow> high < int (length cs) \<Longrightarrow>
    cs ! nat low \<le> t \<Longrightarrow> t \<le> cs ! nat high \<Longrightarrow> t < last cs \<Longrightarrow>
    \<exists>k. segN_loop cs t low high = Inr k \<and> low \<le> k \<and> k \<le> high \<and> k + 1 < int (length cs) \<and>
        cs ! nat k \<le> t \<and> t < cs ! (nat k + 1)"
proof (induction cs t low high rule: segN_loop.induct)
  case (1 cs t low high)
  have mono: "\<And>i j. i < j \<Longrightarrow> j < length cs \<Longrightarrow> cs ! i < cs ! j"
    using "1.prems"(1) sorted_wrt_nth_less by blast
  have ne: "cs \<noteq> []" using "1.prems" by auto
  have lastn: "last cs = cs ! (length cs - 1)" using ne by (simp add: last_conv_nth)
  show ?case
  proof (cases "low < high")
    case False
    then have eq: "high = low" using "1.prems" by simp
    have tl: "t = cs ! nat low" using "1.prems" eq by simp
    have "nat low \<noteq> length cs - 1" using "1.prems"(7) tl lastn by auto
    then have lt: "nat low + 1 < length cs" using "1.prems" eq by auto
    have "cs ! nat low < cs ! (nat low + 1)" using mono lt by simp
    moreover have "segN_loop cs t low high = Inr low"
      using False by (simp add: segN_loop.simps [of cs t low high])
    ultimately show ?thesis using tl lt "1.prems"(2) eq
      by (intro exI [of _ low]) auto
  next
    case True
    let ?m = "mid_of low high"
    have mb: "low \<le> ?m" "?m < high" using mid_of_nonneg [of low high] True "1.prems"(2) by simp_all
    have m0: "0 \<le> ?m" "?m < int (length cs)" "0 \<le> ?m + 1" "?m + 1 < int (length cs)"
      using mb "1.prems" by simp_all
    have rdm: "rdi cs ?m = Inr (cs ! nat ?m)" using m0 by simp
    have rdm1: "rdi cs (?m + 1) = Inr (cs ! nat (?m + 1))" using m0 by simp
    have unfold: "segN_loop cs t low high =
          (if cs ! nat ?m < t then
             (if t < cs ! nat (?m + 1) then Inr ?m else segN_loop cs t (?m + 1) high)
           else if t < cs ! nat ?m then
             bind_err (rdi cs (?m - 1)) (\<lambda>pv.
               if pv < t then Inr (?m - 1) else segN_loop cs t low (?m - 1))
           else Inr ?m)"
      using True rdm rdm1 by (simp add: segN_loop.simps [of cs t low high])
    have nm1: "nat (?m + 1) = nat ?m + 1" using m0 by simp
    consider (gt) "cs ! nat ?m < t" | (lt) "t < cs ! nat ?m" | (eq) "t = cs ! nat ?m" by linarith
    then show ?thesis
    proof cases
      case eq
      have "cs ! nat ?m < cs ! (nat ?m + 1)" using mono [of "nat ?m" "nat ?m + 1"] m0 by simp
      then show ?thesis using eq unfold mb m0 by simp
    next
      case gt
      show ?thesis
      proof (cases "t < cs ! nat (?m + 1)")
        case True
        then show ?thesis using gt unfold mb m0 nm1 by simp
      next
        case False
        have "\<exists>k. segN_loop cs t (?m + 1) high = Inr k \<and> ?m + 1 \<le> k \<and> k \<le> high \<and> k + 1 < int (length cs) \<and>
            cs ! nat k \<le> t \<and> t < cs ! (nat k + 1)"
          using "1.IH"(1) [OF \<open>low < high\<close> rdm gt rdm1] False "1.prems" mb m0
          by simp
        then show ?thesis using gt False unfold mb by auto
      qed
    next
      case lt
      have "low \<noteq> ?m" using lt "1.prems"(5) by auto
      then have lm: "low \<le> ?m - 1" "0 \<le> ?m - 1" "?m - 1 < int (length cs)" using mb m0 "1.prems"(2) by simp_all
      have rdp: "rdi cs (?m - 1) = Inr (cs ! nat (?m - 1))" using lm by simp
      have nm: "nat (?m - 1) + 1 = nat ?m" using lm by simp
      show ?thesis
      proof (cases "cs ! nat (?m - 1) < t")
        case True
        then show ?thesis using lt unfold rdp lm mb m0 nm by simp
      next
        case False
        have ngt: "\<not> cs ! nat ?m < t" using lt by simp
        have "\<exists>k. segN_loop cs t low (?m - 1) = Inr k \<and> low \<le> k \<and> k \<le> ?m - 1 \<and> k + 1 < int (length cs) \<and>
            cs ! nat k \<le> t \<and> t < cs ! (nat k + 1)"
          using "1.IH"(2) [OF \<open>low < high\<close> rdm ngt lt rdp]
            False "1.prems" mb m0 lm
          by simp
        then show ?thesis using lt False unfold rdp mb by auto
      qed
    qed
  qed
qed

lemma segN_spec:
  assumes srt: "sorted_wrt (<) (cuts pw)"
    and len: "length (cuts pw) = length (segs pw) + 1"
    and ne: "segs pw \<noteq> []"
    and low: "low \<le> length (segs pw)" "low = 0 \<or> cuts pw ! low \<le> t"
  shows "\<exists>k. segN pw t (int low) (- 1) = Inr k \<and> k < length (segs pw) \<and>
           (t < cuts pw ! 0 \<longrightarrow> k = 0) \<and>
           (cuts pw ! length (segs pw) \<le> t \<longrightarrow> k = length (segs pw) - 1) \<and>
           (cuts pw ! 0 \<le> t \<and> t < cuts pw ! length (segs pw) \<longrightarrow>
              low \<le> k \<and> cuts pw ! k \<le> t \<and> t < cuts pw ! (k + 1))"
proof -
  let ?cs = "cuts pw" and ?n = "length (segs pw)"
  have n0: "0 < ?n" using ne by simp
  have "?cs \<noteq> []" using len by auto
  then have lastn: "last ?cs = ?cs ! ?n" using len by (simp add: last_conv_nth)
  have c0n: "?cs ! 0 < ?cs ! ?n"
    using sorted_wrt_nth_less [OF srt, of 0 ?n] n0 len by simp
  consider (before) "t < ?cs ! 0" | (after) "?cs ! ?n \<le> t" | (inside) "?cs ! 0 \<le> t" "t < ?cs ! ?n"
    by linarith
  then show ?thesis
  proof cases
    case before
    then have "segN pw t (int low) (- 1) = Inr 0"
      using len by (simp add: segN_def)
    then show ?thesis using before n0 c0n by auto
  next
    case after
    then have "segN pw t (int low) (- 1) = Inr (?n - 1)"
      using len n0 c0n by (simp add: segN_def size_pw_def)
    then show ?thesis using after n0 c0n by auto
  next
    case inside
    have lowle: "?cs ! low \<le> t" using low(2) inside(1) by auto
    obtain k where k: "segN_loop ?cs t (int low) (int ?n) = Inr k" "int low \<le> k" "k \<le> int ?n"
      "k + 1 < int (length ?cs)" "?cs ! nat k \<le> t" "t < ?cs ! (nat k + 1)"
      using segN_loop_correct [OF srt, of "int low" "int ?n" t] low(1) lowle inside(2) len lastn
      by auto
    have "segN pw t (int low) (- 1) = Inr (nat k)"
      using inside len k(1) by (simp add: segN_def size_pw_def)
    then show ?thesis using inside k len by auto
  qed
qed

text \<open>What valueAt computes on a function that meets the invariants.\<close>

definition seg_value :: "'s Fragment \<Rightarrow> 's Piecewise \<Rightarrow> nat \<Rightarrow> real \<Rightarrow> real" where
  "seg_value ops pw i t =
     seg_at ops (segs pw ! i) ((t - cuts pw ! i) / (cuts pw ! (i + 1) - cuts pw ! i))"

lemma valueAt_spec:
  assumes srt: "sorted_wrt (<) (cuts pw)"
    and len: "length (cuts pw) = length (segs pw) + 1"
    and ne: "segs pw \<noteq> []"
  shows "\<exists>k. segN pw t 0 (- 1) = Inr k \<and> k < length (segs pw) \<and>
           valueAt ops pw t = Inr (seg_value ops pw k t)"
proof -
  obtain k where k: "segN pw t 0 (- 1) = Inr k" "k < length (segs pw)"
    using segN_spec [OF srt len ne, of 0 t] by auto
  have "valueAt ops pw t = Inr (seg_value ops pw k t)"
    using k len by (simp add: valueAt_def segT_def seg_value_def nat_add_distrib)
  with k show ?thesis by blast
qed

subsection \<open>Two inputs on which the code goes wrong\<close>

text \<open>
  C1. Every function produced by a public operation is said to meet \<open>invariants()\<close>.
  \<open>portion\<close> calls \<open>ret.invariants()\<close> itself before it returns (and drops the answer).
  On the well-formed two-segment function with cuts 0, 1, 2 the call \<open>portion(pw, 0.5, 1)\<close>
  ends at an interior cut: the head of the segment that starts there is pushed, no cut is
  pushed for it (\<open>to\<close> already is the last cut), and the result has two cuts and two
  segments, which \<open>invariants()\<close> rejects.
\<close>

theorem portion_at_interior_cut_breaks_invariants:
  "invariants \<lparr>cuts = [0, 1, 2], segs = [s0, s1]\<rparr> \<and>
   portion_pw ops \<lparr>cuts = [0, 1, 2], segs = [s0, s1]\<rparr> (1 / 2) 1 =
     Inr \<lparr>cuts = [1 / 2, 1], segs = [seg_portion ops s0 (1 / 2) 1, seg_portion ops s1 0 0]\<rparr> \<and>
   \<not> invariants \<lparr>cuts = [1 / 2, 1],
        segs = [seg_portion ops s0 (1 / 2) 1, seg_portion ops s1 0 0]\<rparr>"
proof (intro conjI)
  show "invariants \<lparr>cuts = [0, 1, 2], segs = [s0, s1]\<rparr>"
    by (simp add: invariants_iff less_Suc_eq)
  show "portion_pw ops \<lparr>cuts = [0, 1, 2], segs = [s0, s1]\<rparr> (1 / 2) 1 =
     Inr \<lparr>cuts = [1 / 2, 1], segs = [seg_portion ops s0 (1 / 2) 1, seg_portion ops s1 0 0]\<rparr>"
    by (simp add: portion_pw_def empty_pw_def segN_def size_pw_def segN_loop.simps mid_of_def
        signed_divide_int_def push_cut_def Piecewise_empty_def segT_def range_of_def
        push_seg_def Let_def cong: bind_err_weak_cong)
  show "\<not> invariants \<lparr>cuts = [1 / 2, 1],
        segs = [seg_portion ops s0 (1 / 2) 1, seg_portion ops s1 0 0]\<rparr>"
    by (simp add: invariants_iff)
qed

text \<open>
  C10. Every index read during \<open>partition\<close> is said to be in range, also when every
  extra cut lies before the domain. The first loop tests
  \<open>c[ci] < pw.cuts.front() && ci < c.size()\<close> in this order; once the last extra cut
  has been consumed, \<open>c[ci]\<close> is read with \<open>ci = c.size()\<close>. With one segment over
  [0, 1] and the extra cut -1 the read is \<open>c[1]\<close> on a vector of size 1.
\<close>

theorem partition_reads_past_extra_cuts:
  "partition_pw ops \<lparr>cuts = [0, 1], segs = [s0]\<rparr> [- 1] = Inl OutOfBounds"
  by (simp add: partition_pw_def empty_pw_def partition_before.simps Piecewise_empty_def
      push_cut_def elem_portion_def size_pw_def push_seg_def cong: bind_err_weak_cong)

subsection \<open>Restriction to a sub-range\<close>

text \<open>\<open>domain()\<close> is \<open>Interval(cuts.front(), cuts.back())\<close>; an interval is the pair of its ends.\<close>

type_synonym Interval = "real \<times> real"

definition domain_pw :: "'s Piecewise \<Rightarrow> error + Interval" where
  "domain_pw pw =
     bind_err (vfront (cuts pw)) (\<lambda>a. bind_err (vback (cuts pw)) (\<lambda>b. Inr (a, b)))"

lemma elem_portion_ok:
  "i < length (segs a) \<Longrightarrow> length (cuts a) = length (segs a) + 1 \<Longrightarrow>
   elem_portion ops a i x y =
     Inr (seg_portion ops (segs a ! i)
       ((x - cuts a ! i) * (1 / (cuts a ! (i + 1) - cuts a ! i)))
       ((y - cuts a ! i) * (1 / (cuts a ! (i + 1) - cuts a ! i))))"
  by (simp add: elem_portion_def size_pw_def)

lemma segT_ok:
  "i < length (segs a) \<Longrightarrow> length (cuts a) = length (segs a) + 1 \<Longrightarrow>
   segT a t (int i) = Inr ((t - cuts a ! i) / (cuts a ! (i + 1) - cuts a ! i))"
  by (simp add: segT_def nat_add_distrib)

lemma portion_pw_single:
  assumes srt: "sorted_wrt (<) (cuts pw)"
    and len: "length (cuts pw) = length (segs pw) + 1"
    and ne: "segs pw \<noteq> []"
    and lt: "lo < hi"
    and i: "segN pw lo 0 (- 1) = Inr i" "i < length (segs pw)"
    and same: "i = length (segs pw) - 1 \<or> hi < cuts pw ! (i + 1)"
  shows "portion_pw ops pw lo hi =
      Inr \<lparr>cuts = [lo, hi],
           segs = [seg_portion ops (segs pw ! i)
              ((lo - cuts pw ! i) * (1 / (cuts pw ! (i + 1) - cuts pw ! i)))
              ((hi - cuts pw ! i) * (1 / (cuts pw ! (i + 1) - cuts pw ! i)))]\<rparr>"
proof -
  have mm: "min lo hi = lo" "max lo hi = hi" using lt by simp_all
  have c: "(if i = size_pw pw - 1 then Inr True
            else bind_err (rd (cuts pw) (i + 1)) (\<lambda>x. Inr (hi < x))) = Inr True"
    using same i(2) len by (auto simp: size_pw_def)
  show ?thesis
    unfolding portion_pw_def mm
    using lt ne i(1) c elem_portion_ok [OF i(2) len, of ops lo hi]
    by (simp add: empty_pw_def push_cut_def push_def push_seg_def
        Piecewise_empty_def split del: if_split)
qed

lemma last_take_drop:
  assumes "i + 1 \<le> fi" "fi < length cs"
  shows "take (fi - i) (drop (i + 1) cs) \<noteq> []"
    and "last (take (fi - i) (drop (i + 1) cs)) = cs ! fi"
proof -
  show tne: "take (fi - i) (drop (i + 1) cs) \<noteq> []" using assms by simp
  have tlen: "length (take (fi - i) (drop (i + 1) cs)) = fi - i" using assms by simp
  have "last (take (fi - i) (drop (i + 1) cs)) = take (fi - i) (drop (i + 1) cs) ! (fi - i - 1)"
    using tne tlen by (simp add: last_conv_nth)
  also have "\<dots> = cs ! fi" using assms by simp
  finally show "last (take (fi - i) (drop (i + 1) cs)) = cs ! fi" .
qed

lemma portion_pw_multi:
  assumes len: "length (cuts pw) = length (segs pw) + 1"
    and ne: "segs pw \<noteq> []"
    and lt: "lo < hi"
    and i: "segN pw lo 0 (- 1) = Inr i" "i < length (segs pw)"
    and notsame: "i \<noteq> length (segs pw) - 1" "cuts pw ! (i + 1) \<le> hi"
    and fi: "segN pw hi (int (i + 1)) (- 1) = Inr fi" "i + 1 \<le> fi" "fi < length (segs pw)"
      "cuts pw ! fi \<le> hi"
  shows "portion_pw ops pw lo hi =
      Inr \<lparr>cuts = lo # take (fi - i) (drop (i + 1) (cuts pw)) @ (if hi \<noteq> cuts pw ! fi then [hi] else []),
           segs = seg_portion ops (segs pw ! i) ((lo - cuts pw ! i) / (cuts pw ! (i + 1) - cuts pw ! i)) 1 #
                  take (fi - (i + 1)) (drop (i + 1) (segs pw)) @
                  [seg_portion ops (segs pw ! fi) 0 ((hi - cuts pw ! fi) / (cuts pw ! (fi + 1) - cuts pw ! fi))]\<rparr>"
proof -
  have mm: "min lo hi = lo" "max lo hi = hi" using lt by simp_all
  have c: "(if i = size_pw pw - 1 then Inr True
            else bind_err (rd (cuts pw) (i + 1)) (\<lambda>x. Inr (hi < x))) = Inr False"
    using notsame i(2) len by (auto simp: size_pw_def)
  have r1: "range_of (segs pw) (i + 1) fi = Inr (take (fi - (i + 1)) (drop (i + 1) (segs pw)))"
    using fi by (simp add: range_of_def)
  have r2: "range_of (cuts pw) (i + 1) (fi + 1) = Inr (take (fi - i) (drop (i + 1) (cuts pw)))"
    using fi len by (simp add: range_of_def)
  have tne: "take (fi - i) (drop (i + 1) (cuts pw)) \<noteq> []"
    and lst0: "last (take (fi - i) (drop (i + 1) (cuts pw))) = cuts pw ! fi"
    using last_take_drop [of i fi "cuts pw"] fi len by simp_all
  from lst0 have lst: "last (lo # take (fi - i) (drop (i + 1) (cuts pw))) = cuts pw ! fi"
    using tne by simp
  show ?thesis
    unfolding portion_pw_def mm
    using lt ne i fi c r1 r2 lst segT_ok [OF i(2) len, of lo] segT_ok [OF fi(3) len, of hi]
    by (simp add: empty_pw_def push_cut_def push_def push_seg_def Let_def
        Piecewise_empty_def split del: if_split)
      (use tne lst0 fi(4) in \<open>simp add: push_cut_def\<close>)
qed

lemma portion_pw_minmax:
  "from \<noteq> to \<Longrightarrow> portion_pw ops pw from to = portion_pw ops pw (min from to) (max from to)"
proof -
  assume "from \<noteq> to"
  then have "min from to \<noteq> max from to" by (auto simp: min_def max_def)
  moreover have "min (min from to) (max from to) = min from to"
    "max (min from to) (max from to) = max from to" by (auto simp: min_def max_def)
  ultimately show ?thesis
    using \<open>from \<noteq> to\<close> unfolding portion_pw_def by (simp only: if_False simp_thms)
qed

text \<open>
  C7 (amended). For a non-empty function that meets the invariants and \<open>from \<noteq> to\<close>,
  \<open>portion(pw, from, to)\<close> returns a function whose domain is
  [min(from, to), max(from, to)], and when \<open>segN\<close> puts both end points in the same
  segment the result has exactly one segment.
\<close>

theorem portion_domain_and_single_segment:
  assumes inv: "invariants pw" and ne: "segs pw \<noteq> []" and neq: "from \<noteq> to"
  shows "\<exists>r. portion_pw ops pw from to = Inr r \<and>
           domain_pw r = Inr (min from to, max from to) \<and>
           (segN pw (min from to) 0 (- 1) = segN pw (max from to) 0 (- 1) \<longrightarrow> size_pw r = 1)"
proof -
  let ?lo = "min from to" and ?hi = "max from to" and ?n = "length (segs pw)"
  have lt: "?lo < ?hi" using neq by (auto simp: min_def max_def)
  have srt: "sorted_wrt (<) (cuts pw)" and len: "length (cuts pw) = ?n + 1"
    using invariants_sorted [OF inv ne] by simp_all
  have mono: "\<And>a b. a < b \<Longrightarrow> b < length (cuts pw) \<Longrightarrow> cuts pw ! a < cuts pw ! b"
    using srt sorted_wrt_nth_less by blast
  obtain i where i: "segN pw ?lo 0 (- 1) = Inr i" "i < ?n"
    using segN_spec [OF srt len ne, of 0 ?lo] by auto
  obtain j where j: "segN pw ?hi 0 (- 1) = Inr j" "j < ?n"
    "cuts pw ! ?n \<le> ?hi \<longrightarrow> j = ?n - 1"
    "cuts pw ! 0 \<le> ?hi \<and> ?hi < cuts pw ! ?n \<longrightarrow> cuts pw ! j \<le> ?hi \<and> ?hi < cuts pw ! (j + 1)"
    using segN_spec [OF srt len ne, of 0 ?hi] by auto
  show ?thesis
  proof (cases "i = ?n - 1 \<or> ?hi < cuts pw ! (i + 1)")
    case True
    show ?thesis
      using portion_pw_single [OF srt len ne lt i True, of ops] portion_pw_minmax [OF neq, of ops pw]
      by (simp add: domain_pw_def size_pw_def)
  next
    case False
    then have ns: "i \<noteq> ?n - 1" "cuts pw ! (i + 1) \<le> ?hi" by (simp_all only: de_Morgan_disj not_less) simp_all
    have i1: "i + 1 \<le> ?n" using i(2) by simp
    obtain fi where fi: "segN pw ?hi (int (i + 1)) (- 1) = Inr fi" "fi < ?n"
      "cuts pw ! ?n \<le> ?hi \<longrightarrow> fi = ?n - 1"
      "cuts pw ! 0 \<le> ?hi \<and> ?hi < cuts pw ! ?n \<longrightarrow> i + 1 \<le> fi \<and> cuts pw ! fi \<le> ?hi"
      using segN_spec [OF srt len ne i1, of ?hi] ns(2) by auto
    have c0: "cuts pw ! 0 \<le> cuts pw ! (i + 1)"
      using mono [of 0 "i + 1"] i(2) len by simp
    have fib: "i + 1 \<le> fi \<and> cuts pw ! fi \<le> ?hi"
    proof (cases "cuts pw ! ?n \<le> ?hi")
      case True
      then have "fi = ?n - 1" using fi(3) by simp
      moreover have "cuts pw ! (?n - 1) < cuts pw ! ?n"
        using mono [of "?n - 1" ?n] i(2) len by simp
      ultimately show ?thesis using True ns(1) i(2) by auto
    next
      case False
      then show ?thesis using fi(4) c0 ns(2) by auto
    qed
    have neqseg: "j \<noteq> i"
    proof (cases "cuts pw ! ?n \<le> ?hi")
      case True
      then show ?thesis using j(3) ns(1) by simp
    next
      case False
      then have "?hi < cuts pw ! (j + 1)" using j(4) c0 ns(2) by auto
      then show ?thesis using ns(2) by auto
    qed
    have res: "portion_pw ops pw from to =
      Inr \<lparr>cuts = ?lo # take (fi - i) (drop (i + 1) (cuts pw)) @ (if ?hi \<noteq> cuts pw ! fi then [?hi] else []),
           segs = seg_portion ops (segs pw ! i) ((?lo - cuts pw ! i) / (cuts pw ! (i + 1) - cuts pw ! i)) 1 #
                  take (fi - (i + 1)) (drop (i + 1) (segs pw)) @
                  [seg_portion ops (segs pw ! fi) 0 ((?hi - cuts pw ! fi) / (cuts pw ! (fi + 1) - cuts pw ! fi))]\<rparr>"
      using portion_pw_multi [OF len ne lt i ns fi(1) _ fi(2), of ops] fib
        portion_pw_minmax [OF neq, of ops pw] by simp
    have tne: "take (fi - i) (drop (i + 1) (cuts pw)) \<noteq> []"
      and lst: "last (take (fi - i) (drop (i + 1) (cuts pw))) = cuts pw ! fi"
      using last_take_drop [of i fi "cuts pw"] fib fi(2) len by simp_all
    have dom: "domain_pw \<lparr>cuts = ?lo # take (fi - i) (drop (i + 1) (cuts pw)) @ (if ?hi \<noteq> cuts pw ! fi then [?hi] else []),
           segs = seg_portion ops (segs pw ! i) ((?lo - cuts pw ! i) / (cuts pw ! (i + 1) - cuts pw ! i)) 1 #
                  take (fi - (i + 1)) (drop (i + 1) (segs pw)) @
                  [seg_portion ops (segs pw ! fi) 0 ((?hi - cuts pw ! fi) / (cuts pw ! (fi + 1) - cuts pw ! fi))]\<rparr>
         = Inr (?lo, ?hi)"
      using tne lst by (simp add: domain_pw_def)
    show ?thesis using res dom i(1) j(1) neqseg by simp
  qed
qed

subsection \<open>A segment type for the examples: polynomials by their coefficients\<close>

text \<open>
  s-basis.h is not part of the sources. The examples use polynomials in the power basis,
  lowest coefficient first, with the operations the capability asks for.
\<close>

fun poly_at :: "real list \<Rightarrow> real \<Rightarrow> real" where
  "poly_at [] u = 0"
| "poly_at (c # p) u = c + u * poly_at p u"

fun poly_add :: "real list \<Rightarrow> real list \<Rightarrow> real list" where
  "poly_add [] q = q"
| "poly_add p [] = p"
| "poly_add (a # p) (b # q) = (a + b) # poly_add p q"

definition poly_smult :: "real \<Rightarrow> real list \<Rightarrow> real list" where
  "poly_smult k p = map (\<lambda>c. k * c) p"

fun poly_mul :: "real list \<Rightarrow> real list \<Rightarrow> real list" where
  "poly_mul [] q = []"
| "poly_mul (a # p) q = poly_add (poly_smult a q) (0 # poly_mul p q)"

fun poly_affine :: "real list \<Rightarrow> real \<Rightarrow> real \<Rightarrow> real list" where
  "poly_affine [] a d = []"
| "poly_affine (c # p) a d = poly_add [c] (poly_mul [a, d] (poly_affine p a d))"

fun poly_integ :: "real \<Rightarrow> real list \<Rightarrow> real list" where
  "poly_integ n [] = []"
| "poly_integ n (c # p) = c / n # poly_integ (n + 1) p"

fun poly_diff :: "real \<Rightarrow> real list \<Rightarrow> real list" where
  "poly_diff n [] = []"
| "poly_diff n (c # p) = n * c # poly_diff (n + 1) p"

definition poly_ops :: "real list Fragment" where
  "poly_ops = \<lparr>
     seg_at = poly_at,
     seg_at0 = (\<lambda>p. poly_at p 0),
     seg_at1 = (\<lambda>p. poly_at p 1),
     seg_portion = (\<lambda>p a b. poly_affine p a (b - a)),
     seg_const = (\<lambda>v. [v]),
     seg_default = [],
     seg_offset = (\<lambda>p k. poly_add p [k]),
     seg_scale = (\<lambda>p k. poly_smult k p),
     seg_div = (\<lambda>p k. poly_smult (1 / k) p),
     seg_add = poly_add,
     seg_sub = (\<lambda>p q. poly_add p (poly_smult (- 1) q)),
     seg_mul = poly_mul,
     seg_integral = (\<lambda>p. 0 # poly_integ 1 p),
     seg_derivative = (\<lambda>p. poly_diff 1 (tl p))\<rparr>"

lemma poly_at_add [simp]: "poly_at (poly_add p q) u = poly_at p u + poly_at q u"
  by (induction p q rule: poly_add.induct) (simp_all add: algebra_simps)

lemma poly_at_smult [simp]: "poly_at (poly_smult k p) u = k * poly_at p u"
  by (induction p) (simp_all add: poly_smult_def algebra_simps)

lemma poly_at_mul [simp]: "poly_at (poly_mul p q) u = poly_at p u * poly_at q u"
  by (induction p) (simp_all add: algebra_simps)

lemma poly_at_affine [simp]: "poly_at (poly_affine p a d) u = poly_at p (a + d * u)"
  by (induction p) (simp_all add: algebra_simps)

lemma poly_diff_integ: "n \<noteq> 0 \<Longrightarrow> 0 \<le> n \<Longrightarrow> poly_diff n (poly_integ n p) = p"
  by (induction p arbitrary: n) simp_all

text \<open>
  C7 as stated, for all \<open>from\<close> and \<open>to\<close>: with \<open>from = to\<close> the guard at the top of
  \<open>portion\<close> returns the empty function, which has no domain and no segment, although both
  end points lie in the same segment.
\<close>

theorem portion_equal_endpoints_is_empty:
  "portion_pw poly_ops \<lparr>cuts = [0, 1], segs = [[1]]\<rparr> (1 / 2) (1 / 2) = Inr Piecewise_empty \<and>
   domain_pw (Piecewise_empty :: real list Piecewise) \<noteq> Inr (1 / 2, 1 / 2) \<and>
   size_pw (Piecewise_empty :: real list Piecewise) \<noteq> 1"
  by (simp add: portion_pw_def domain_pw_def Piecewise_empty_def size_pw_def)

theorem portion_domain_and_single_segment_witness:
  "\<exists>r. portion_pw poly_ops \<lparr>cuts = [0, 1, 2], segs = [[1], [0, 1]]\<rparr> (3 / 4) (1 / 4) = Inr r \<and>
       domain_pw r = Inr (1 / 4, 3 / 4) \<and> size_pw r = 1"
  using portion_domain_and_single_segment
    [of "\<lparr>cuts = [0, 1, 2], segs = [[1], [0, 1]]\<rparr>" "3 / 4" "1 / 4" poly_ops]
  by (simp add: invariants_iff less_Suc_eq segN_def size_pw_def segN_loop.simps mid_of_def
      signed_divide_int_def cong: bind_err_weak_cong)

subsection \<open>Composition with an elementary function\<close>

text \<open>
  \<open>compose(f, g)\<close> for an \<open>SBasis\<close> \<open>g\<close>. \<open>SBasis\<close>, \<open>Linear\<close>, \<open>bounds_fast\<close> and the
  two helpers \<open>compose_pullback\<close> and \<open>compose_findSegIdx\<close> (declared in piecewise.h,
  defined in a file that is not part of the sources) are parameters. The pullback is a
  \<open>std::map<double, unsigned>\<close>, read in key order: a list of pairs, \<open>unsigned\<close> being a
  32-bit word because the assertion subtracts two of them.
\<close>

record ('s, 'g) Composer =
  g_isZero :: "'g \<Rightarrow> bool"
  g_bounds_fast :: "'g \<Rightarrow> Interval"
  g_after_linear :: "'g \<Rightarrow> real \<Rightarrow> real \<Rightarrow> 'g"
  linear_after_g :: "real \<Rightarrow> real \<Rightarrow> 'g \<Rightarrow> 'g"
  seg_compose :: "'s \<Rightarrow> 'g \<Rightarrow> 's"
  compose_pullback :: "real list \<Rightarrow> 'g \<Rightarrow> (real \<times> 32 word) list"
  compose_findSegIdx :: "real \<times> 32 word \<Rightarrow> real \<times> 32 word \<Rightarrow> real list \<Rightarrow> 'g \<Rightarrow> int"

text \<open>
  The loop over adjacent entries \<open>cut\<close>, \<open>next\<close> of the pullback. Its first statement is
  \<open>assert(std::abs(int((*cut).second-(*next).second))<1)\<close>.
\<close>

fun compose_loop ::
  "('s, 'g) Composer \<Rightarrow> 's Piecewise \<Rightarrow> 'g \<Rightarrow> real list \<Rightarrow> (real \<times> 32 word) list \<Rightarrow>
   's Piecewise \<Rightarrow> error + 's Piecewise" where
  "compose_loop cops f g levels (cur # nxt # rest) result =
     bind_err (assert_that (\<bar>sint (snd cur - snd nxt)\<bar> < 1)) (\<lambda>_.
     bind_err (rdi (cuts f) (compose_findSegIdx cops cur nxt levels g)) (\<lambda>ci.
     bind_err (rdi (cuts f) (compose_findSegIdx cops cur nxt levels g + 1)) (\<lambda>cj.
     bind_err (rdi (segs f) (compose_findSegIdx cops cur nxt levels g)) (\<lambda>s.
     bind_err (push
         (seg_compose cops s
           (linear_after_g cops (- ci / (cj - ci)) ((1 - ci) / (cj - ci))
             (g_after_linear cops g (fst cur) (fst nxt))))
         (fst nxt) result) (\<lambda>result1.
       compose_loop cops f g levels (nxt # rest) result1)))))"
| "compose_loop cops f g levels [cur] result = Inr result"
| "compose_loop cops f g levels [] result = Inl OutOfBounds"

definition compose_pw ::
  "'s Fragment \<Rightarrow> ('s, 'g) Composer \<Rightarrow> 's Piecewise \<Rightarrow> 'g \<Rightarrow> error + 's Piecewise" where
  "compose_pw ops cops f g =
     (if empty_pw f then Inr Piecewise_empty
      else if g_isZero cops g then
        bind_err (valueAt ops f 0) (\<lambda>v. Inr (Piecewise_const ops v))
      else if size_pw f = 1 then
        bind_err (rd (cuts f) 0) (\<lambda>t0.
        bind_err (rd (cuts f) 1) (\<lambda>c1.
        bind_err (rd (segs f) 0) (\<lambda>s.
          Inr (Piecewise_seg (seg_compose cops s
            (linear_after_g cops (- t0 / (c1 - t0)) ((1 - t0) / (c1 - t0)) g))))))
      else
        bind_err (vfront (cuts f)) (\<lambda>cf.
        bind_err (if cf > snd (g_bounds_fast cops g) then Inr True
                  else bind_err (vback (cuts f)) (\<lambda>cb. Inr (fst (g_bounds_fast cops g) > cb)))
          (\<lambda>outside.
        if outside then
          bind_err (rd (cuts f) 1) (\<lambda>c1.
          bind_err (rdi (cuts f)
              (if snd (g_bounds_fast cops g) < c1 then 0 else int (length (cuts f)) - 2)) (\<lambda>t0.
          bind_err (rdi (cuts f)
              ((if snd (g_bounds_fast cops g) < c1 then 0 else int (length (cuts f)) - 2) + 1))
            (\<lambda>t1.
          bind_err (rdi (segs f)
              (if snd (g_bounds_fast cops g) < c1 then 0 else int (length (cuts f)) - 2)) (\<lambda>s.
            Inr (Piecewise_seg (seg_compose cops s
              (linear_after_g cops (- t0 / (t1 - t0)) ((1 - t0) / (t1 - t0)) g)))))))
        else
          bind_err (range_of (cuts f) 1 (length (cuts f) - 1)) (\<lambda>levels.
            compose_loop cops f g levels (compose_pullback cops levels g)
              \<lparr>cuts = [0], segs = []\<rparr>))))"

lemma compose_loop_needs_equal_indices:
  "snd cur \<noteq> snd nxt \<Longrightarrow>
   compose_loop cops f g levels (cur # nxt # rest) result = Inl AssertFailed"
proof -
  assume "snd cur \<noteq> snd nxt"
  then have "snd cur - snd nxt \<noteq> 0" by simp
  then have "sint (snd cur - snd nxt) \<noteq> 0" by (simp add: signed_eq_0_iff)
  then have "\<not> \<bar>sint (snd cur - snd nxt)\<bar> < 1" by linarith
  then show ?thesis by simp
qed

text \<open>
  C2. Adjacent pullback entries are said to carry segment indices that differ by exactly 1,
  only a larger jump being fatal (the comment under the assertion blames a root the root
  finder missed). The assertion demands \<open>|diff| < 1\<close>: two adjacent entries whose indices
  differ by exactly 1 already stop the composition.
\<close>

theorem compose_rejects_indices_differing_by_one:
  "compose_loop cops f g levels ((t0, i) # (t1, i + 1) # rest) result = Inl AssertFailed"
  by (rule compose_loop_needs_equal_indices) simp

subsection \<open>Calculus\<close>

text \<open>
  \<open>integral\<close> and \<open>derivative\<close> fill \<open>result.segs[i]\<close> for \<open>i\<close> from 0 on; the loops
  carry the index, the number of segments still to do and the segments made so far
  (\<open>integral\<close> also the running constant \<open>c\<close>).
\<close>

fun integral_loop ::
  "'s Fragment \<Rightarrow> 's Piecewise \<Rightarrow> nat \<Rightarrow> nat \<Rightarrow> real \<Rightarrow> 's list \<Rightarrow> error + 's list" where
  "integral_loop ops a i 0 c acc = Inr acc"
| "integral_loop ops a i (Suc k) c acc =
     bind_err (rd (segs a) i) (\<lambda>s.
     bind_err (rd (cuts a) (i + 1)) (\<lambda>cj.
     bind_err (rd (cuts a) i) (\<lambda>ci.
       integral_loop ops a (i + 1) k
         (seg_at1 ops (seg_offset ops (seg_scale ops (seg_integral ops s) (cj - ci))
            (c - seg_at0 ops (seg_scale ops (seg_integral ops s) (cj - ci)))))
         (acc @ [seg_offset ops (seg_scale ops (seg_integral ops s) (cj - ci))
            (c - seg_at0 ops (seg_scale ops (seg_integral ops s) (cj - ci)))]))))"

definition integral_pw :: "'s Fragment \<Rightarrow> 's Piecewise \<Rightarrow> error + 's Piecewise" where
  "integral_pw ops a =
     bind_err (rd (segs a) 0) (\<lambda>s0.
     bind_err (integral_loop ops a 0 (length (segs a)) (seg_at0 ops s0) []) (\<lambda>ss.
       Inr \<lparr>cuts = cuts a, segs = ss\<rparr>))"

fun derivative_loop ::
  "'s Fragment \<Rightarrow> 's Piecewise \<Rightarrow> nat \<Rightarrow> nat \<Rightarrow> 's list \<Rightarrow> error + 's list" where
  "derivative_loop ops a i 0 acc = Inr acc"
| "derivative_loop ops a i (Suc k) acc =
     bind_err (rd (segs a) i) (\<lambda>s.
     bind_err (rd (cuts a) (i + 1)) (\<lambda>cj.
     bind_err (rd (cuts a) i) (\<lambda>ci.
       derivative_loop ops a (i + 1) k
         (acc @ [seg_div ops (seg_derivative ops s) (cj - ci)]))))"

definition derivative_pw :: "'s Fragment \<Rightarrow> 's Piecewise \<Rightarrow> error + 's Piecewise" where
  "derivative_pw ops a =
     bind_err (derivative_loop ops a 0 (length (segs a)) []) (\<lambda>ss.
       Inr \<lparr>cuts = cuts a, segs = ss\<rparr>)"

text \<open>The segment produced for index \<open>i\<close> by each loop.\<close>

definition integral_seg :: "'s Fragment \<Rightarrow> 's Piecewise \<Rightarrow> nat \<Rightarrow> real \<Rightarrow> 's" where
  "integral_seg ops a i c =
     seg_offset ops (seg_scale ops (seg_integral ops (segs a ! i)) (cuts a ! (i + 1) - cuts a ! i))
       (c - seg_at0 ops (seg_scale ops (seg_integral ops (segs a ! i)) (cuts a ! (i + 1) - cuts a ! i)))"

definition derivative_seg :: "'s Fragment \<Rightarrow> 's Piecewise \<Rightarrow> nat \<Rightarrow> 's" where
  "derivative_seg ops a i =
     seg_div ops (seg_derivative ops (segs a ! i)) (cuts a ! (i + 1) - cuts a ! i)"

lemma derivative_loop_result:
  "i + k = length (segs a) \<Longrightarrow> length (cuts a) = length (segs a) + 1 \<Longrightarrow>
   derivative_loop ops a i k acc = Inr (acc @ map (derivative_seg ops a) [i..<i + k])"
proof (induction k arbitrary: i acc)
  case 0
  then show ?case by simp
next
  case (Suc k)
  have "derivative_loop ops a i (Suc k) acc =
        derivative_loop ops a (i + 1) k (acc @ [derivative_seg ops a i])"
    using Suc.prems by (simp add: derivative_seg_def)
  also have "\<dots> = Inr ((acc @ [derivative_seg ops a i]) @ map (derivative_seg ops a) [i + 1..<i + 1 + k])"
    using Suc.prems by (intro Suc.IH) simp_all
  also have "(acc @ [derivative_seg ops a i]) @ map (derivative_seg ops a) [i + 1..<i + 1 + k] =
             acc @ map (derivative_seg ops a) [i..<i + Suc k]"
    using upt_conv_Cons [of i "i + Suc k"] by (simp del: upt_Suc)
  finally show ?case .
qed

lemma derivative_pw_result:
  "length (cuts a) = length (segs a) + 1 \<Longrightarrow>
   derivative_pw ops a =
     Inr \<lparr>cuts = cuts a, segs = map (derivative_seg ops a) [0..<length (segs a)]\<rparr>"
  using derivative_loop_result [of 0 "length (segs a)" a ops "[]"]
  by (simp add: derivative_pw_def)

text \<open>The segments of the integral and the constant carried out of the loop.\<close>

fun integral_segs :: "'s Fragment \<Rightarrow> 's Piecewise \<Rightarrow> nat \<Rightarrow> nat \<Rightarrow> real \<Rightarrow> 's list" where
  "integral_segs ops a i 0 c = []"
| "integral_segs ops a i (Suc k) c =
     integral_seg ops a i c # integral_segs ops a (i + 1) k (seg_at1 ops (integral_seg ops a i c))"

lemma integral_loop_result:
  "i + k = length (segs a) \<Longrightarrow> length (cuts a) = length (segs a) + 1 \<Longrightarrow>
   integral_loop ops a i k c acc = Inr (acc @ integral_segs ops a i k c)"
proof (induction k arbitrary: i c acc)
  case 0
  then show ?case by simp
next
  case (Suc k)
  have "integral_loop ops a i (Suc k) c acc =
        integral_loop ops a (i + 1) k (seg_at1 ops (integral_seg ops a i c))
          (acc @ [integral_seg ops a i c])"
    using Suc.prems by (simp add: integral_seg_def)
  also have "\<dots> = Inr ((acc @ [integral_seg ops a i c]) @
        integral_segs ops a (i + 1) k (seg_at1 ops (integral_seg ops a i c)))"
    using Suc.prems by (intro Suc.IH) simp_all
  finally show ?case by simp
qed

lemma integral_pw_result:
  "segs a \<noteq> [] \<Longrightarrow> length (cuts a) = length (segs a) + 1 \<Longrightarrow>
   integral_pw ops a =
     Inr \<lparr>cuts = cuts a,
          segs = integral_segs ops a 0 (length (segs a)) (seg_at0 ops (segs a ! 0))\<rparr>"
  using integral_loop_result [of 0 "length (segs a)" a ops "seg_at0 ops (segs a ! 0)" "[]"]
  by (simp add: integral_pw_def)

lemma length_integral_segs [simp]: "length (integral_segs ops a i k c) = k"
  by (induction k arbitrary: i c) simp_all

lemma integral_segs_nth:
  "j < k \<Longrightarrow> \<exists>c'. integral_segs ops a i k c ! j = integral_seg ops a (i + j) c'"
proof (induction k arbitrary: i c j)
  case 0
  then show ?case by simp
next
  case (Suc k)
  show ?case
  proof (cases j)
    case 0
    then show ?thesis by auto
  next
    case (Suc j')
    then have "j' < k" using Suc.prems by simp
    from Suc.IH [OF this, of "i + 1" "seg_at1 ops (integral_seg ops a i c)"]
    show ?thesis using Suc by simp
  qed
qed

text \<open>
  What "exact" means for the segment operations the two loops use: evaluation commutes
  with offset, scaling and division, the end values are evaluations, the derivative is
  linear and ignores constants, the derivative of the antiderivative is the segment, and
  the antiderivative of the derivative is the segment up to a constant.
\<close>

definition exact_calculus :: "'s Fragment \<Rightarrow> bool" where
  "exact_calculus ops \<longleftrightarrow>
     (\<forall>s. seg_at0 ops s = seg_at ops s 0) \<and>
     (\<forall>s. seg_at1 ops s = seg_at ops s 1) \<and>
     (\<forall>s k u. seg_at ops (seg_offset ops s k) u = seg_at ops s u + k) \<and>
     (\<forall>s w u. seg_at ops (seg_scale ops s w) u = seg_at ops s u * w) \<and>
     (\<forall>s w u. seg_at ops (seg_div ops s w) u = seg_at ops s u / w) \<and>
     (\<forall>s u. seg_at ops (seg_derivative ops (seg_integral ops s)) u = seg_at ops s u) \<and>
     (\<forall>s k u. seg_at ops (seg_derivative ops (seg_offset ops s k)) u =
        seg_at ops (seg_derivative ops s) u) \<and>
     (\<forall>s w u. seg_at ops (seg_derivative ops (seg_scale ops s w)) u =
        seg_at ops (seg_derivative ops s) u * w) \<and>
     (\<forall>s w u. seg_at ops (seg_integral ops (seg_div ops s w)) u =
        seg_at ops (seg_integral ops s) u / w) \<and>
     (\<forall>s. \<exists>k. \<forall>u. seg_at ops (seg_integral ops (seg_derivative ops s)) u = seg_at ops s u + k)"

lemma exact_calculus_antiderivative:
  "exact_calculus ops \<Longrightarrow>
   \<exists>k. \<forall>u. seg_at ops (seg_integral ops (seg_derivative ops s)) u = seg_at ops s u + k"
  unfolding exact_calculus_def by (elim conjE) (erule allE)

lemma integral_seg_at0: "exact_calculus ops \<Longrightarrow> seg_at0 ops (integral_seg ops a i c) = c"
  by (simp add: exact_calculus_def integral_seg_def)

lemma integral_segs_start:
  "exact_calculus ops \<Longrightarrow> 0 < k \<Longrightarrow> seg_at0 ops (integral_segs ops a i k c ! 0) = c"
  by (cases k) (simp_all add: integral_seg_at0)

lemma integral_segs_continuous:
  "exact_calculus ops \<Longrightarrow> j + 1 < k \<Longrightarrow>
   seg_at1 ops (integral_segs ops a i k c ! j) = seg_at0 ops (integral_segs ops a i k c ! (j + 1))"
proof (induction k arbitrary: i c j)
  case 0
  then show ?case by simp
next
  case (Suc k)
  show ?case
  proof (cases j)
    case 0
    then have "0 < k" using Suc.prems by simp
    then show ?thesis
      using 0 integral_segs_start [OF Suc.prems(1), of k a "i + 1"] by simp
  next
    case (Suc j')
    then have "j' + 1 < k" using Suc.prems by simp
    from Suc.IH [OF Suc.prems(1) this] show ?thesis using Suc by simp
  qed
qed

lemma derivative_of_integral_seg:
  assumes ex: "exact_calculus ops" and w: "cuts a ! (i + 1) - cuts a ! i \<noteq> 0"
  shows "seg_at ops (seg_div ops (seg_derivative ops (integral_seg ops a i c))
           (cuts a ! (i + 1) - cuts a ! i)) u = seg_at ops (segs a ! i) u"
  using ex w by (simp add: exact_calculus_def integral_seg_def)

lemma integral_of_derivative_seg:
  assumes ex: "exact_calculus ops" and w: "cuts a ! (i + 1) - cuts a ! i \<noteq> 0"
  shows "\<exists>k. \<forall>u. seg_at ops
            (seg_offset ops
               (seg_scale ops (seg_integral ops (seg_div ops (seg_derivative ops (segs a ! i))
                  (cuts a ! (i + 1) - cuts a ! i))) (cuts a ! (i + 1) - cuts a ! i))
               c) u = seg_at ops (segs a ! i) u + k"
proof -
  obtain k where k: "\<forall>u. seg_at ops (seg_integral ops (seg_derivative ops (segs a ! i))) u =
      seg_at ops (segs a ! i) u + k"
    using exact_calculus_antiderivative [OF ex] by blast
  have "\<forall>u. seg_at ops
            (seg_offset ops
               (seg_scale ops (seg_integral ops (seg_div ops (seg_derivative ops (segs a ! i))
                  (cuts a ! (i + 1) - cuts a ! i))) (cuts a ! (i + 1) - cuts a ! i))
               c) u = seg_at ops (segs a ! i) u + (k + c)"
    using ex w k by (simp add: exact_calculus_def)
  then show ?thesis by blast
qed

lemma valueAt_same_segments:
  assumes c: "cuts a = cuts b" and l: "length (segs a) = length (segs b)"
    and e: "\<forall>i<length (segs a). \<forall>u. seg_at ops (segs a ! i) u = seg_at ops (segs b ! i) u"
  shows "valueAt ops a t = valueAt ops b t"
proof -
  have n: "segN a t 0 (- 1) = segN b t 0 (- 1)"
    unfolding segN_def size_pw_def c l ..
  have T: "\<And>i. segT a t (int i) = segT b t (int i)"
    unfolding segT_def c n ..
  show ?thesis
  proof (cases "segN b t 0 (- 1)")
    case (Inl err)
    then show ?thesis using n by (simp add: valueAt_def)
  next
    case (Inr k)
    show ?thesis
    proof (cases "k < length (segs b)")
      case True
      then show ?thesis
        using n Inr T [of k] l e by (cases "segT b t (int k)") (simp_all add: valueAt_def)
    next
      case False
      then show ?thesis using n Inr l by (simp add: valueAt_def)
    qed
  qed
qed

text \<open>
  C9. For a non-empty function \<open>f\<close> that meets the invariants, with exact segment
  operations: \<open>derivative(integral(f))\<close> has the cuts of \<open>f\<close> and segments that evaluate
  as those of \<open>f\<close> (so it evaluates as \<open>f\<close> everywhere); \<open>integral(derivative(f))\<close> has
  the cuts of \<open>f\<close> and each segment evaluates as the segment of \<open>f\<close> plus a constant;
  \<open>integral(f)\<close> starts at the value of the first segment of \<open>f\<close> at its local start, and
  across every interior cut the end value of a segment is the start value of the next.
\<close>

theorem derivative_integral_roundtrip:
  assumes ex: "exact_calculus ops" and inv: "invariants f" and ne: "segs f \<noteq> []"
  shows "\<exists>F d g G.
      integral_pw ops f = Inr F \<and> derivative_pw ops F = Inr d \<and>
      cuts d = cuts f \<and> length (segs d) = length (segs f) \<and>
      (\<forall>i<length (segs f). \<forall>u. seg_at ops (segs d ! i) u = seg_at ops (segs f ! i) u) \<and>
      (\<forall>t. valueAt ops d t = valueAt ops f t) \<and>
      derivative_pw ops f = Inr g \<and> integral_pw ops g = Inr G \<and>
      cuts G = cuts f \<and> length (segs G) = length (segs f) \<and>
      (\<forall>i<length (segs f). \<exists>k. \<forall>u. seg_at ops (segs G ! i) u = seg_at ops (segs f ! i) u + k) \<and>
      cuts F = cuts f \<and> length (segs F) = length (segs f) \<and>
      seg_at0 ops (segs F ! 0) = seg_at0 ops (segs f ! 0) \<and>
      (\<forall>i. i + 1 < length (segs f) \<longrightarrow>
         seg_at1 ops (segs F ! i) = seg_at0 ops (segs F ! (i + 1)))"
proof -
  let ?n = "length (segs f)"
  have len: "length (cuts f) = ?n + 1" and inc: "\<forall>i<?n. cuts f ! i < cuts f ! (i + 1)"
    using inv ne by (auto simp: invariants_iff)
  have w: "\<And>i. i < ?n \<Longrightarrow> cuts f ! (i + 1) - cuts f ! i \<noteq> 0"
    using inc by fastforce
  define F where "F = \<lparr>cuts = cuts f, segs = integral_segs ops f 0 ?n (seg_at0 ops (segs f ! 0))\<rparr>"
  define d where "d = \<lparr>cuts = cuts F, segs = map (derivative_seg ops F) [0..<length (segs F)]\<rparr>"
  define g where "g = \<lparr>cuts = cuts f, segs = map (derivative_seg ops f) [0..<?n]\<rparr>"
  define G where "G = \<lparr>cuts = cuts g,
      segs = integral_segs ops g 0 (length (segs g)) (seg_at0 ops (segs g ! 0))\<rparr>"
  have F: "integral_pw ops f = Inr F"
    unfolding F_def using integral_pw_result [OF ne len] .
  have Fc: "cuts F = cuts f" and Fl: "length (segs F) = ?n" by (simp_all add: F_def)
  have d: "derivative_pw ops F = Inr d"
    unfolding d_def using derivative_pw_result [of F ops] Fc Fl len by simp
  have dc: "cuts d = cuts f" and dl: "length (segs d) = ?n" by (simp_all add: d_def Fc Fl)
  have dseg: "\<forall>i<?n. \<forall>u. seg_at ops (segs d ! i) u = seg_at ops (segs f ! i) u"
  proof (intro allI impI)
    fix i u assume i: "i < ?n"
    obtain c' where c': "segs F ! i = integral_seg ops f i c'"
      using integral_segs_nth [OF i, of ops f 0] by (auto simp: F_def)
    have "segs d ! i = seg_div ops (seg_derivative ops (integral_seg ops f i c'))
        (cuts f ! (i + 1) - cuts f ! i)"
      using i c' by (simp add: d_def Fl Fc derivative_seg_def)
    then show "seg_at ops (segs d ! i) u = seg_at ops (segs f ! i) u"
      using derivative_of_integral_seg [OF ex w [OF i]] by simp
  qed
  have dval: "\<forall>t. valueAt ops d t = valueAt ops f t"
    using valueAt_same_segments [OF dc dl, of ops] dseg dl by simp
  have g: "derivative_pw ops f = Inr g"
    unfolding g_def using derivative_pw_result [OF len] .
  have gc: "cuts g = cuts f" and gl: "length (segs g) = ?n" by (simp_all add: g_def)
  have gne: "segs g \<noteq> []" using gl ne by auto
  have G: "integral_pw ops g = Inr G"
    unfolding G_def using integral_pw_result [OF gne, of ops] gc gl len by simp
  have Gc: "cuts G = cuts f" and Gl: "length (segs G) = ?n" by (simp_all add: G_def gc gl)
  have Gseg: "\<forall>i<?n. \<exists>k. \<forall>u. seg_at ops (segs G ! i) u = seg_at ops (segs f ! i) u + k"
  proof (intro allI impI)
    fix i assume i: "i < ?n"
    obtain c' where c': "segs G ! i = integral_seg ops g i c'"
      using integral_segs_nth [of i "length (segs g)" ops g 0] i gl by (auto simp: G_def)
    have "segs G ! i = seg_offset ops
               (seg_scale ops (seg_integral ops (seg_div ops (seg_derivative ops (segs f ! i))
                  (cuts f ! (i + 1) - cuts f ! i))) (cuts f ! (i + 1) - cuts f ! i))
               (c' - seg_at0 ops (seg_scale ops (seg_integral ops (seg_div ops (seg_derivative ops (segs f ! i))
                  (cuts f ! (i + 1) - cuts f ! i))) (cuts f ! (i + 1) - cuts f ! i)))"
      using i c' by (simp add: integral_seg_def g_def derivative_seg_def)
    then show "\<exists>k. \<forall>u. seg_at ops (segs G ! i) u = seg_at ops (segs f ! i) u + k"
      using integral_of_derivative_seg [OF ex w [OF i]] by simp
  qed
  have n0: "0 < ?n" using ne by simp
  have F0: "seg_at0 ops (segs F ! 0) = seg_at0 ops (segs f ! 0)"
    using integral_segs_start [OF ex n0] by (simp add: F_def)
  have Fcont: "\<forall>i. i + 1 < ?n \<longrightarrow> seg_at1 ops (segs F ! i) = seg_at0 ops (segs F ! (i + 1))"
    using integral_segs_continuous [OF ex] by (simp add: F_def)
  show ?thesis
    using F d dc dl dseg dval g G Gc Gl Gseg Fc Fl F0 Fcont by blast
qed

text \<open>The polynomial segments are exact in this sense.\<close>

lemma poly_integ_diff: "0 < n \<Longrightarrow> poly_integ n (poly_diff n p) = p"
  by (induction p arbitrary: n) simp_all

lemma poly_at_diff_smult:
  "poly_at (poly_diff n (poly_smult w p)) u = poly_at (poly_diff n p) u * w"
  by (induction p arbitrary: n) (simp_all add: poly_smult_def algebra_simps)

lemma poly_at_integ_smult:
  "poly_at (poly_integ n (poly_smult w p)) u = poly_at (poly_integ n p) u * w"
  by (induction p arbitrary: n) (simp_all add: poly_smult_def algebra_simps)

lemma poly_add_Nil2 [simp]: "poly_add p [] = p"
  by (cases p) simp_all

lemma tl_poly_add_const: "tl (poly_add p [k]) = tl p"
  by (cases p) simp_all

lemma tl_poly_smult: "tl (poly_smult w p) = poly_smult w (tl p)"
  by (cases p) (simp_all add: poly_smult_def)

lemma poly_at_drop_const: "\<exists>k. \<forall>u. u * poly_at (tl p) u = poly_at p u + k"
proof (cases p)
  case Nil
  then show ?thesis by simp
next
  case (Cons c q)
  then have "\<forall>u. u * poly_at (tl p) u = poly_at p u + (- c)" by simp
  then show ?thesis by blast
qed

lemma poly_ops_exact: "exact_calculus poly_ops"
  unfolding exact_calculus_def
proof (intro conjI allI)
  fix s :: "real list" and k w u :: real
  show "seg_at0 poly_ops s = seg_at poly_ops s 0" by (simp add: poly_ops_def)
  show "seg_at1 poly_ops s = seg_at poly_ops s 1" by (simp add: poly_ops_def)
  show "seg_at poly_ops (seg_offset poly_ops s k) u = seg_at poly_ops s u + k"
    by (simp add: poly_ops_def)
  show "seg_at poly_ops (seg_scale poly_ops s w) u = seg_at poly_ops s u * w"
    by (simp add: poly_ops_def)
  show "seg_at poly_ops (seg_div poly_ops s w) u = seg_at poly_ops s u / w"
    by (simp add: poly_ops_def)
  show "seg_at poly_ops (seg_derivative poly_ops (seg_integral poly_ops s)) u = seg_at poly_ops s u"
    by (simp add: poly_ops_def poly_diff_integ)
  show "seg_at poly_ops (seg_derivative poly_ops (seg_offset poly_ops s k)) u =
        seg_at poly_ops (seg_derivative poly_ops s) u"
    by (simp add: poly_ops_def tl_poly_add_const)
  show "seg_at poly_ops (seg_derivative poly_ops (seg_scale poly_ops s w)) u =
        seg_at poly_ops (seg_derivative poly_ops s) u * w"
    by (simp add: poly_ops_def tl_poly_smult poly_at_diff_smult)
  show "seg_at poly_ops (seg_integral poly_ops (seg_div poly_ops s w)) u =
        seg_at poly_ops (seg_integral poly_ops s) u / w"
    by (simp add: poly_ops_def poly_at_integ_smult)
  show "\<exists>k. \<forall>u. seg_at poly_ops (seg_integral poly_ops (seg_derivative poly_ops s)) u =
        seg_at poly_ops s u + k"
    using poly_at_drop_const [of s] by (simp add: poly_ops_def poly_integ_diff)
qed

theorem derivative_integral_roundtrip_witness:
  "exact_calculus poly_ops \<and>
   invariants \<lparr>cuts = [0, 1, 3], segs = [[1, 2], [0, 0, 3 :: real]]\<rparr> \<and>
   (\<exists>F d g G.
      integral_pw poly_ops \<lparr>cuts = [0, 1, 3], segs = [[1, 2], [0, 0, 3]]\<rparr> = Inr F \<and>
      derivative_pw poly_ops F = Inr d \<and>
      cuts d = [0, 1, 3] \<and> length (segs d) = 2 \<and>
      (\<forall>t. valueAt poly_ops d t = valueAt poly_ops \<lparr>cuts = [0, 1, 3], segs = [[1, 2], [0, 0, 3]]\<rparr> t) \<and>
      derivative_pw poly_ops \<lparr>cuts = [0, 1, 3], segs = [[1, 2], [0, 0, 3]]\<rparr> = Inr g \<and>
      integral_pw poly_ops g = Inr G \<and> cuts G = [0, 1, 3] \<and>
      seg_at0 poly_ops (segs F ! 0) = 1 \<and>
      seg_at1 poly_ops (segs F ! 0) = seg_at0 poly_ops (segs F ! 1))"
proof -
  let ?f = "\<lparr>cuts = [0, 1, 3], segs = [[1, 2], [0, 0, 3 :: real]]\<rparr>"
  have inv: "invariants ?f"
    by (simp add: invariants_iff less_Suc_eq)
  have ne: "segs ?f \<noteq> []" by simp
  from derivative_integral_roundtrip [OF poly_ops_exact inv ne]
  obtain F d g G where r:
    "integral_pw poly_ops ?f = Inr F"
    "derivative_pw poly_ops F = Inr d"
    "cuts d = cuts ?f" "length (segs d) = length (segs ?f)"
    "\<forall>t. valueAt poly_ops d t = valueAt poly_ops ?f t"
    "derivative_pw poly_ops ?f = Inr g"
    "integral_pw poly_ops g = Inr G" "cuts G = cuts ?f"
    "seg_at0 poly_ops (segs F ! 0) = seg_at0 poly_ops (segs ?f ! 0)"
    "\<forall>i. i + 1 < length (segs ?f) \<longrightarrow>
       seg_at1 poly_ops (segs F ! i) = seg_at0 poly_ops (segs F ! (i + 1))"
    by blast
  have a0: "seg_at0 poly_ops (segs F ! 0) = 1"
    using r(9) by (simp add: poly_ops_def)
  have c01: "seg_at1 poly_ops (segs F ! 0) = seg_at0 poly_ops (segs F ! 1)"
    using r(10) by simp
  have "\<exists>F d g G.
      integral_pw poly_ops ?f = Inr F \<and>
      derivative_pw poly_ops F = Inr d \<and>
      cuts d = [0, 1, 3] \<and> length (segs d) = 2 \<and>
      (\<forall>t. valueAt poly_ops d t = valueAt poly_ops ?f t) \<and>
      derivative_pw poly_ops ?f = Inr g \<and>
      integral_pw poly_ops g = Inr G \<and> cuts G = [0, 1, 3] \<and>
      seg_at0 poly_ops (segs F ! 0) = 1 \<and>
      seg_at1 poly_ops (segs F ! 0) = seg_at0 poly_ops (segs F ! 1)"
    using r(1-8) a0 c01 by (intro exI [of _ F] exI [of _ d] exI [of _ g] exI [of _ G]) simp
  then show ?thesis using poly_ops_exact inv by simp
qed

subsection \<open>Refining a function by its own cuts\<close>

lemma partition_after_own_cuts:
  assumes len: "length (cuts pw) = length (segs pw) + 1"
  shows "partition_after ops pw (cuts pw) (length (segs pw)) (cuts pw ! length (segs pw)) ret = Inr ret"
proof -
  have "partition_after ops pw (cuts pw) (length (segs pw)) (cuts pw ! length (segs pw)) ret =
        partition_after ops pw (cuts pw) (length (segs pw) + 1) (cuts pw ! length (segs pw)) ret"
    by (subst partition_after.simps) (use len in simp)
  also have "\<dots> = Inr ret"
    by (subst partition_after.simps) (use len in simp)
  finally show ?thesis .
qed

lemma partition_main_own_cuts:
  assumes srt: "sorted_wrt (<) (cuts pw)"
    and len: "length (cuts pw) = length (segs pw) + 1"
  shows "si \<le> length (segs pw) \<Longrightarrow>
     partition_main ops pw (cuts pw) si si (cuts pw ! si)
       \<lparr>cuts = take (si + 1) (cuts pw), segs = take si (segs pw)\<rparr> = Inr pw"
proof (induction "length (segs pw) - si" arbitrary: si)
  case 0
  then have si: "si = length (segs pw)" by simp
  have eq: "\<lparr>cuts = take (si + 1) (cuts pw), segs = take si (segs pw)\<rparr> = pw"
    using si len by simp
  show ?case
    unfolding eq unfolding si
    by (subst partition_main.simps) (simp add: size_pw_def partition_after_own_cuts [OF len])
next
  case (Suc k)
  then have si: "si < length (segs pw)" by simp
  let ?ret = "\<lparr>cuts = take (si + 1) (cuts pw), segs = take si (segs pw)\<rparr>"
  have lt: "cuts pw ! si < cuts pw ! (si + 1)"
    using sorted_wrt_nth_less [OF srt, of si "si + 1"] si len by simp
  have step1: "partition_main ops pw (cuts pw) si si (cuts pw ! si) ?ret =
        partition_main ops pw (cuts pw) si (si + 1) (cuts pw ! si) ?ret"
    by (subst partition_main.simps) (use si len lt in \<open>simp add: size_pw_def\<close>)
  have lastc: "last (take (si + 1) (cuts pw)) = cuts pw ! si"
    using si len by (simp add: take_Suc_conv_app_nth)
  have push: "push_cut (cuts pw ! (si + 1)) (push_seg (segs pw ! si) ?ret) =
      Inr \<lparr>cuts = take (si + 1 + 1) (cuts pw), segs = take (si + 1) (segs pw)\<rparr>"
    using si len lt lastc by (simp add: push_cut_def push_seg_def take_Suc_conv_app_nth)
  have step2: "partition_main ops pw (cuts pw) si (si + 1) (cuts pw ! si) ?ret =
        partition_main ops pw (cuts pw) (si + 1) (si + 1) (cuts pw ! (si + 1))
          \<lparr>cuts = take (si + 1 + 1) (cuts pw), segs = take (si + 1) (segs pw)\<rparr>"
    by (subst partition_main.simps) (use si len push in \<open>simp add: size_pw_def\<close>)
  have "partition_main ops pw (cuts pw) (si + 1) (si + 1) (cuts pw ! (si + 1))
          \<lparr>cuts = take (si + 1 + 1) (cuts pw), segs = take (si + 1) (segs pw)\<rparr> = Inr pw"
    using Suc.hyps(2) si by (intro Suc.hyps(1)) simp_all
  with step1 step2 show ?case by simp
qed

text \<open>
  C5. For a non-empty function \<open>f\<close> that meets the invariants, \<open>partition(f, f.cuts)\<close>
  returns \<open>f\<close> itself: the same cuts and the same segments.
\<close>

theorem partition_by_own_cuts:
  assumes inv: "invariants f" and ne: "segs f \<noteq> []"
  shows "partition_pw ops f (cuts f) = Inr f"
proof -
  have srt: "sorted_wrt (<) (cuts f)" and len: "length (cuts f) = length (segs f) + 1"
    using invariants_sorted [OF inv ne] by simp_all
  have cne: "cuts f \<noteq> []" using len by auto
  have hd0: "hd (cuts f) = cuts f ! 0" using cne by (simp add: hd_conv_nth)
  have before: "partition_before ops f (cuts f) 0 Piecewise_empty = Inr (0, Piecewise_empty)"
    by (subst partition_before.simps) (use cne hd0 in simp)
  have t1: "take (0 + 1) (cuts f) = [cuts f ! 0]"
    using cne by (simp add: take_Suc_conv_app_nth)
  have "partition_pw ops f (cuts f) =
      partition_main ops f (cuts f) 0 0 (cuts f ! 0) \<lparr>cuts = take (0 + 1) (cuts f), segs = take 0 (segs f)\<rparr>"
    using cne ne before unfolding t1
    by (simp add: partition_pw_def empty_pw_def push_cut_def Piecewise_empty_def)
  also have "\<dots> = Inr f"
    by (rule partition_main_own_cuts [OF srt len]) simp
  finally show ?thesis .
qed

theorem partition_by_own_cuts_witness:
  "invariants \<lparr>cuts = [0, 1, 3], segs = [[1, 2], [0, 0, 3 :: real]]\<rparr> \<and>
   partition_pw poly_ops \<lparr>cuts = [0, 1, 3], segs = [[1, 2], [0, 0, 3]]\<rparr> [0, 1, 3] =
     Inr \<lparr>cuts = [0, 1, 3], segs = [[1, 2], [0, 0, 3]]\<rparr>"
proof -
  have inv: "invariants \<lparr>cuts = [0, 1, 3], segs = [[1, 2], [0, 0, 3 :: real]]\<rparr>"
    by (simp add: invariants_iff less_Suc_eq)
  show ?thesis
    using partition_by_own_cuts [OF inv, of poly_ops] inv by simp
qed

subsection \<open>Pieces: what partition and portion preserve\<close>

text \<open>
  The segment restriction is exact when \<open>portion(s, a, b)\<close> at local time \<open>u\<close> is \<open>s\<close> at
  \<open>a + u (b - a)\<close>.
\<close>

definition exact_portion :: "'s Fragment \<Rightarrow> bool" where
  "exact_portion ops \<longleftrightarrow>
     (\<forall>s a b u. seg_at ops (seg_portion ops s a b) u = seg_at ops s (a + u * (b - a)))"

text \<open>
  A segment \<open>s\<close> over [lo, hi] is a piece of segment \<open>i\<close> of \<open>pw\<close> when it lies in the range
  where \<open>valueAt\<close> uses segment \<open>i\<close> (the first and the last segment also serve the times
  outside the domain) and, the restriction being exact, takes the values of that segment.
\<close>

definition piece_of :: "'s Fragment \<Rightarrow> 's Piecewise \<Rightarrow> nat \<Rightarrow> real \<Rightarrow> real \<Rightarrow> 's \<Rightarrow> bool" where
  "piece_of ops pw i lo hi s \<longleftrightarrow>
     i < length (segs pw) \<and> lo < hi \<and>
     (i = 0 \<or> cuts pw ! i \<le> lo) \<and>
     (i = length (segs pw) - 1 \<or> hi \<le> cuts pw ! (i + 1)) \<and>
     (exact_portion ops \<longrightarrow>
        (\<forall>t. seg_at ops s ((t - lo) / (hi - lo)) = seg_value ops pw i t))"

definition refines :: "'s Fragment \<Rightarrow> 's Piecewise \<Rightarrow> 's Piecewise \<Rightarrow> bool" where
  "refines ops pw r \<longleftrightarrow>
     length (cuts r) = length (segs r) + 1 \<and> sorted_wrt (<) (cuts r) \<and>
     (\<forall>j<length (segs r). \<exists>i. piece_of ops pw i (cuts r ! j) (cuts r ! (j + 1)) (segs r ! j))"

lemma affine_reparam:
  fixes lo hi ci w t :: real
  assumes "lo < hi" "w \<noteq> 0"
  shows "(lo - ci) * (1 / w) + (t - lo) / (hi - lo) * ((hi - ci) * (1 / w) - (lo - ci) * (1 / w)) =
         (t - ci) / w"
proof -
  have h: "hi - lo \<noteq> 0" using assms by simp
  have "(hi - ci) * (1 / w) - (lo - ci) * (1 / w) = (hi - lo) / w"
    by (simp add: diff_divide_distrib [symmetric])
  then have "(t - lo) / (hi - lo) * ((hi - ci) * (1 / w) - (lo - ci) * (1 / w)) = (t - lo) / w"
    using h by simp
  then have "(lo - ci) * (1 / w) + (t - lo) / (hi - lo) * ((hi - ci) * (1 / w) - (lo - ci) * (1 / w)) =
      (lo - ci) / w + (t - lo) / w" by simp
  also have "\<dots> = (t - ci) / w"
    by (simp add: add_divide_distrib [symmetric])
  finally show ?thesis .
qed

lemma elem_piece_value:
  assumes ex: "exact_portion ops" and lt: "lo < hi"
    and w: "cuts pw ! (i + 1) - cuts pw ! i \<noteq> 0"
  shows "seg_at ops
           (seg_portion ops (segs pw ! i)
              ((lo - cuts pw ! i) * (1 / (cuts pw ! (i + 1) - cuts pw ! i)))
              ((hi - cuts pw ! i) * (1 / (cuts pw ! (i + 1) - cuts pw ! i))))
           ((t - lo) / (hi - lo)) = seg_value ops pw i t"
  using ex affine_reparam [OF lt w, of "cuts pw ! i" t]
  by (simp add: exact_portion_def seg_value_def)

lemma tail_piece_value:
  assumes ex: "exact_portion ops" and lt: "lo < cuts pw ! (i + 1)"
    and w: "cuts pw ! (i + 1) - cuts pw ! i \<noteq> 0"
  shows "seg_at ops
           (seg_portion ops (segs pw ! i)
              ((lo - cuts pw ! i) / (cuts pw ! (i + 1) - cuts pw ! i)) 1)
           ((t - lo) / (cuts pw ! (i + 1) - lo)) = seg_value ops pw i t"
proof -
  let ?w = "cuts pw ! (i + 1) - cuts pw ! i"
  have one: "(cuts pw ! (i + 1) - cuts pw ! i) * (1 / ?w) = 1" using w by simp
  have a: "(lo - cuts pw ! i) / ?w = (lo - cuts pw ! i) * (1 / ?w)" by simp
  show ?thesis
    using elem_piece_value [OF ex lt w, of t] unfolding one a .
qed

lemma head_piece_value:
  assumes ex: "exact_portion ops" and lt: "cuts pw ! i < hi"
    and w: "cuts pw ! (i + 1) - cuts pw ! i \<noteq> 0"
  shows "seg_at ops
           (seg_portion ops (segs pw ! i) 0
              ((hi - cuts pw ! i) / (cuts pw ! (i + 1) - cuts pw ! i)))
           ((t - cuts pw ! i) / (hi - cuts pw ! i)) = seg_value ops pw i t"
proof -
  let ?w = "cuts pw ! (i + 1) - cuts pw ! i"
  have z: "(cuts pw ! i - cuts pw ! i) * (1 / ?w) = 0" by simp
  have a: "(hi - cuts pw ! i) / ?w = (hi - cuts pw ! i) * (1 / ?w)" by simp
  show ?thesis
    using elem_piece_value [OF ex lt w, of t] unfolding z a .
qed

lemma refines_snoc:
  assumes r: "refines ops pw ret" and p: "piece_of ops pw i (last (cuts ret)) x s"
  shows "refines ops pw (ret\<lparr>cuts := cuts ret @ [x], segs := segs ret @ [s]\<rparr>)"
proof -
  let ?xs = "cuts ret" and ?ss = "segs ret"
  have len: "length ?xs = length ?ss + 1" and srt: "sorted_wrt (<) ?xs"
    and pc: "\<forall>j<length ?ss. \<exists>i. piece_of ops pw i (?xs ! j) (?xs ! (j + 1)) (?ss ! j)"
    using r by (simp_all add: refines_def)
  have ne: "?xs \<noteq> []" using len by auto
  have lx: "last ?xs < x" using p by (simp add: piece_of_def)
  have lastn: "last ?xs = ?xs ! length ?ss" using ne len by (simp add: last_conv_nth)
  have below: "\<forall>y\<in>set ?xs. y < x"
  proof
    fix y assume "y \<in> set ?xs"
    then obtain k where k: "k < length ?xs" "y = ?xs ! k" by (auto simp: in_set_conv_nth)
    have "?xs ! k \<le> ?xs ! length ?ss"
    proof (cases "k = length ?ss")
      case True
      then show ?thesis by simp
    next
      case False
      then have "k < length ?ss" using k(1) len by simp
      then show ?thesis using sorted_wrt_nth_less [OF srt, of k "length ?ss"] len by simp
    qed
    then show "y < x" using k(2) lx lastn by simp
  qed
  have srt': "sorted_wrt (<) (?xs @ [x])"
    using srt below by (simp add: sorted_wrt_append)
  have pc': "\<forall>j<length (?ss @ [s]). \<exists>i. piece_of ops pw i ((?xs @ [x]) ! j) ((?xs @ [x]) ! (j + 1)) ((?ss @ [s]) ! j)"
  proof (intro allI impI)
    fix j assume j: "j < length (?ss @ [s])"
    show "\<exists>i. piece_of ops pw i ((?xs @ [x]) ! j) ((?xs @ [x]) ! (j + 1)) ((?ss @ [s]) ! j)"
    proof (cases "j < length ?ss")
      case True
      then have "(?xs @ [x]) ! j = ?xs ! j" "(?xs @ [x]) ! (j + 1) = ?xs ! (j + 1)"
        "(?ss @ [s]) ! j = ?ss ! j"
        using len by (simp_all add: nth_append)
      then show ?thesis using pc True by simp
    next
      case False
      then have jj: "j = length ?ss" using j by simp
      have "(?xs @ [x]) ! j = last ?xs" "(?xs @ [x]) ! (j + 1) = x" "(?ss @ [s]) ! j = s"
        using jj len lastn by (simp_all add: nth_append)
      then show ?thesis using p by auto
    qed
  qed
  show ?thesis
    using len srt' pc' by (simp add: refines_def)
qed

lemma refines_copy_rest:
  assumes srt: "sorted_wrt (<) (cuts pw)" and len: "length (cuts pw) = length (segs pw) + 1"
  shows "refines ops pw ret \<Longrightarrow> last (cuts ret) = cuts pw ! si \<Longrightarrow> si \<le> length (segs pw) \<Longrightarrow>
     refines ops pw (ret\<lparr>cuts := cuts ret @ drop (si + 1) (cuts pw),
                          segs := segs ret @ drop si (segs pw)\<rparr>)"
proof (induction "length (segs pw) - si" arbitrary: si ret)
  case 0
  then have "si = length (segs pw)" by simp
  then show ?case using 0 len by simp
next
  case (Suc k)
  then have si: "si < length (segs pw)" by simp
  have lt: "cuts pw ! si < cuts pw ! (si + 1)"
    using sorted_wrt_nth_less [OF srt, of si "si + 1"] si len by simp
  have p: "piece_of ops pw si (last (cuts ret)) (cuts pw ! (si + 1)) (segs pw ! si)"
    using si lt Suc.prems(2) by (simp add: piece_of_def seg_value_def)
  let ?ret1 = "ret\<lparr>cuts := cuts ret @ [cuts pw ! (si + 1)], segs := segs ret @ [segs pw ! si]\<rparr>"
  have r1: "refines ops pw ?ret1" using refines_snoc [OF Suc.prems(1) p] .
  have l1: "last (cuts ?ret1) = cuts pw ! (si + 1)" by simp
  have "refines ops pw (?ret1\<lparr>cuts := cuts ?ret1 @ drop (si + 1 + 1) (cuts pw),
                          segs := segs ?ret1 @ drop (si + 1) (segs pw)\<rparr>)"
    using Suc.hyps(2) si by (intro Suc.hyps(1) r1 l1) simp_all
  moreover have "drop (si + 1) (cuts pw) = cuts pw ! (si + 1) # drop (si + 1 + 1) (cuts pw)"
    using si len by (simp add: Cons_nth_drop_Suc)
  moreover have "drop si (segs pw) = segs pw ! si # drop (si + 1) (segs pw)"
    using si by (simp add: Cons_nth_drop_Suc)
  ultimately show ?case by simp
qed

lemma seg_value_at:
  assumes srt: "sorted_wrt (<) (cuts pw)"
    and len: "length (cuts pw) = length (segs pw) + 1"
    and i: "i < length (segs pw)"
    and lo: "i = 0 \<or> cuts pw ! i \<le> t"
    and hi: "i = length (segs pw) - 1 \<or> t < cuts pw ! (i + 1)"
  shows "valueAt ops pw t = Inr (seg_value ops pw i t)"
proof -
  let ?n = "length (segs pw)"
  have ne: "segs pw \<noteq> []" using i by auto
  have mono: "\<And>a b. a < b \<Longrightarrow> b < length (cuts pw) \<Longrightarrow> cuts pw ! a < cuts pw ! b"
    using srt sorted_wrt_nth_less by blast
  obtain k where k: "segN pw t 0 (- 1) = Inr k" "k < ?n"
    "t < cuts pw ! 0 \<longrightarrow> k = 0" "cuts pw ! ?n \<le> t \<longrightarrow> k = ?n - 1"
    "cuts pw ! 0 \<le> t \<and> t < cuts pw ! ?n \<longrightarrow> cuts pw ! k \<le> t \<and> t < cuts pw ! (k + 1)"
    using segN_spec [OF srt len ne, of 0 t] by auto
  have v: "valueAt ops pw t = Inr (seg_value ops pw k t)"
    using k(1,2) len by (simp add: valueAt_def segT_def seg_value_def nat_add_distrib)
  have "k = i"
  proof (rule ccontr)
    assume ki: "k \<noteq> i"
    consider (before) "t < cuts pw ! 0" | (after) "cuts pw ! ?n \<le> t"
      | (inside) "cuts pw ! 0 \<le> t" "t < cuts pw ! ?n" by linarith
    then show False
    proof cases
      case before
      then have "k = 0" using k(3) by simp
      then have "0 < i" "cuts pw ! i \<le> t" using ki lo by auto
      then show False using mono [of 0 i] i len before by simp
    next
      case after
      then have "k = ?n - 1" using k(4) by simp
      then have i1: "i + 1 < ?n" "t < cuts pw ! (i + 1)" using ki hi i by auto
      then show False using mono [of "i + 1" ?n] len after by simp
    next
      case inside
      then have kk: "cuts pw ! k \<le> t" "t < cuts pw ! (k + 1)" using k(5) by simp_all
      have il: "cuts pw ! i \<le> t" using lo inside(1) by auto
      have ih: "t < cuts pw ! (i + 1)"
      proof (cases "i = ?n - 1")
        case True
        then have "i + 1 = ?n" using i by simp
        then show ?thesis using inside(2) by simp
      next
        case False
        then show ?thesis using hi by simp
      qed
      show False
      proof (cases "k < i")
        case True
        then have "cuts pw ! (k + 1) \<le> cuts pw ! i"
          using mono [of "k + 1" i] i len by (cases "k + 1 = i") auto
        then show False using kk il by simp
      next
        case False
        then have "i < k" using ki by simp
        then have "cuts pw ! (i + 1) \<le> cuts pw ! k"
          using mono [of "i + 1" k] k(2) len by (cases "i + 1 = k") auto
        then show False using kk ih by simp
      qed
    qed
  qed
  with v show ?thesis by simp
qed

lemma piece_valueAt:
  assumes ex: "exact_portion ops"
    and srt: "sorted_wrt (<) (cuts pw)"
    and len: "length (cuts pw) = length (segs pw) + 1"
    and p: "piece_of ops pw i lo hi s"
    and l: "lo \<le> t \<or> lo \<le> cuts pw ! 0"
    and h: "t < hi \<or> cuts pw ! length (segs pw) \<le> hi \<or> (t = hi \<and> hi \<notin> set (cuts pw))"
  shows "valueAt ops pw t = Inr (seg_at ops s ((t - lo) / (hi - lo)))"
proof -
  let ?n = "length (segs pw)"
  have mono: "\<And>a b. a < b \<Longrightarrow> b < length (cuts pw) \<Longrightarrow> cuts pw ! a < cuts pw ! b"
    using srt sorted_wrt_nth_less by blast
  have i: "i < ?n" and pl: "i = 0 \<or> cuts pw ! i \<le> lo"
    and ph: "i = ?n - 1 \<or> hi \<le> cuts pw ! (i + 1)"
    and pv: "seg_at ops s ((t - lo) / (hi - lo)) = seg_value ops pw i t"
    using p ex by (simp_all add: piece_of_def)
  have lo: "i = 0 \<or> cuts pw ! i \<le> t"
  proof (cases "lo \<le> t")
    case True
    then show ?thesis using pl by auto
  next
    case False
    then have "lo \<le> cuts pw ! 0" using l by simp
    then show ?thesis using pl mono [of 0 i] i len by (cases "i = 0") auto
  qed
  have hi: "i = ?n - 1 \<or> t < cuts pw ! (i + 1)"
  proof (cases "t < hi")
    case True
    then show ?thesis using ph by auto
  next
    case False
    note nlt = False
    show ?thesis
    proof (cases "cuts pw ! ?n \<le> hi")
      case True
      note c = True
      show ?thesis
      proof (cases "i + 1 < ?n")
        case True
        then have "cuts pw ! (i + 1) < cuts pw ! ?n" using mono [of "i + 1" ?n] len by simp
        then show ?thesis using ph c by auto
      next
        case False
        then show ?thesis using i by auto
      qed
    next
      case False
      then have e: "t = hi" "hi \<notin> set (cuts pw)" using h nlt by simp_all
      have "cuts pw ! (i + 1) \<in> set (cuts pw)" using i len by simp
      then have "hi \<noteq> cuts pw ! (i + 1)" using e(2) by auto
      then show ?thesis using ph e(1) by auto
    qed
  qed
  show ?thesis
    using seg_value_at [OF srt len i lo hi, of ops] pv by simp
qed

lemma refines_valueAt:
  assumes ex: "exact_portion ops"
    and srt: "sorted_wrt (<) (cuts pw)"
    and len: "length (cuts pw) = length (segs pw) + 1"
    and r: "refines ops pw r" and ne: "segs r \<noteq> []"
    and l: "t < cuts r ! 0 \<longrightarrow> cuts r ! 0 \<le> cuts pw ! 0"
    and h: "cuts r ! length (segs r) \<le> t \<longrightarrow>
        cuts pw ! length (segs pw) \<le> cuts r ! length (segs r) \<or>
        (t = cuts r ! length (segs r) \<and> t \<notin> set (cuts pw))"
  shows "valueAt ops r t = valueAt ops pw t"
proof -
  let ?m = "length (segs r)"
  have rlen: "length (cuts r) = ?m + 1" and rsrt: "sorted_wrt (<) (cuts r)"
    using r by (simp_all add: refines_def)
  have rmono: "\<And>a b. a < b \<Longrightarrow> b < length (cuts r) \<Longrightarrow> cuts r ! a < cuts r ! b"
    using rsrt sorted_wrt_nth_less by blast
  obtain j where j: "segN r t 0 (- 1) = Inr j" "j < ?m"
    "t < cuts r ! 0 \<longrightarrow> j = 0" "cuts r ! ?m \<le> t \<longrightarrow> j = ?m - 1"
    "cuts r ! 0 \<le> t \<and> t < cuts r ! ?m \<longrightarrow> cuts r ! j \<le> t \<and> t < cuts r ! (j + 1)"
    using segN_spec [OF rsrt rlen ne, of 0 t] by auto
  have v: "valueAt ops r t = Inr (seg_value ops r j t)"
    using j(1,2) rlen by (simp add: valueAt_def segT_def seg_value_def nat_add_distrib)
  obtain i where p: "piece_of ops pw i (cuts r ! j) (cuts r ! (j + 1)) (segs r ! j)"
    using r j(2) by (auto simp: refines_def)
  have jj: "cuts r ! j < cuts r ! (j + 1)" using rmono [of j "j + 1"] j(2) rlen by simp
  consider (before) "t < cuts r ! 0" | (after) "cuts r ! ?m \<le> t"
    | (inside) "cuts r ! 0 \<le> t" "t < cuts r ! ?m" by linarith
  then have "(cuts r ! j \<le> t \<or> cuts r ! j \<le> cuts pw ! 0) \<and>
             (t < cuts r ! (j + 1) \<or> cuts pw ! length (segs pw) \<le> cuts r ! (j + 1) \<or>
              (t = cuts r ! (j + 1) \<and> cuts r ! (j + 1) \<notin> set (cuts pw)))"
  proof cases
    case before
    then have "j = 0" using j(3) by simp
    then show ?thesis using before l jj by auto
  next
    case after
    then have "j + 1 = ?m" using j(4) j(2) by simp
    then show ?thesis using after h jj by auto
  next
    case inside
    then show ?thesis using j(5) by simp
  qed
  then have "valueAt ops pw t =
      Inr (seg_at ops (segs r ! j) ((t - cuts r ! j) / (cuts r ! (j + 1) - cuts r ! j)))"
    using piece_valueAt [OF ex srt len p] by simp
  then show ?thesis using v by (simp add: seg_value_def)
qed

subsection \<open>partition refines\<close>

lemma push_ok:
  assumes len: "length (cuts ret) = length (segs ret) + 1" and lt: "last (cuts ret) < x"
  shows "push s x ret = Inr (ret\<lparr>cuts := cuts ret @ [x], segs := segs ret @ [s]\<rparr>)"
  using len lt by (auto simp: push_def push_cut_def push_seg_def)

lemma push_cut_seg_ok:
  assumes lt: "cuts ret = [] \<or> last (cuts ret) < x"
  shows "push_cut x (push_seg s ret) = Inr (ret\<lparr>cuts := cuts ret @ [x], segs := segs ret @ [s]\<rparr>)"
  using lt by (auto simp: push_cut_def push_seg_def)

lemma refines_last_mem:
  "refines ops pw ret \<Longrightarrow> last (cuts ret) \<in> set (cuts ret)"
  by (auto simp: refines_def intro: last_in_set)

lemma partition_after_refines:
  assumes srt: "sorted_wrt (<) (cuts pw)"
    and len: "length (cuts pw) = length (segs pw) + 1"
    and ne: "segs pw \<noteq> []"
    and c: "sorted_wrt (<) c"
  shows "refines ops pw ret \<Longrightarrow> last (cuts ret) = prev \<Longrightarrow>
     cuts pw ! length (segs pw) \<le> prev \<Longrightarrow> ci \<le> length c \<Longrightarrow>
     (\<forall>j. ci \<le> j \<and> j < length c \<longrightarrow> prev \<le> c ! j) \<Longrightarrow>
     \<exists>r. partition_after ops pw c ci prev ret = Inr r \<and> refines ops pw r \<and>
         set (cuts r) = set (cuts ret) \<union> set (drop ci c)"
proof (induction "length c - ci" arbitrary: ci prev ret)
  case 0
  then have "partition_after ops pw c ci prev ret = Inr ret"
    by (subst partition_after.simps) simp
  then show ?case using 0 by simp
next
  case (Suc k)
  let ?n = "length (segs pw)"
  have ci: "ci < length c" using Suc.hyps(2) by simp
  have n0: "0 < ?n" using ne by simp
  have dr: "drop ci c = c ! ci # drop (ci + 1) c" using ci by (simp add: Cons_nth_drop_Suc)
  have wlt: "cuts pw ! (?n - 1) < cuts pw ! ?n"
    using sorted_wrt_nth_less [OF srt, of "?n - 1" ?n] n0 len by simp
  show ?case
  proof (cases "c ! ci > prev")
    case True
    let ?s = "seg_portion ops (segs pw ! (?n - 1))
       ((prev - cuts pw ! (?n - 1)) * (1 / (cuts pw ! (?n - 1 + 1) - cuts pw ! (?n - 1))))
       ((c ! ci - cuts pw ! (?n - 1)) * (1 / (cuts pw ! (?n - 1 + 1) - cuts pw ! (?n - 1))))"
    let ?ret1 = "ret\<lparr>cuts := cuts ret @ [c ! ci], segs := segs ret @ [?s]\<rparr>"
    have n1: "?n - 1 + 1 = ?n" using n0 by simp
    have ep: "elem_portion ops pw (size_pw pw - 1) prev (c ! ci) = Inr ?s"
      unfolding size_pw_def using elem_portion_ok [of "?n - 1" pw ops prev "c ! ci"] n0 len by simp
    have w: "cuts pw ! (?n - 1 + 1) - cuts pw ! (?n - 1) \<noteq> 0" using wlt n1 by simp
    have p: "piece_of ops pw (?n - 1) (last (cuts ret)) (c ! ci) ?s"
      unfolding piece_of_def Suc.prems(2)
      using n0 True wlt Suc.prems(3) elem_piece_value [OF _ True w] by auto
    have r1: "refines ops pw ?ret1" using refines_snoc [OF Suc.prems(1) p] .
    have rlen: "length (cuts ret) = length (segs ret) + 1" using Suc.prems(1) by (simp add: refines_def)
    have pu: "push ?s (c ! ci) ret = Inr ?ret1"
      using push_ok [OF rlen, of "c ! ci" ?s] True Suc.prems(2) by simp
    have step: "partition_after ops pw c ci prev ret = partition_after ops pw c (ci + 1) (c ! ci) ?ret1"
      by (subst partition_after.simps) (use ci True ep pu in simp)
    have nxt: "\<forall>j. ci + 1 \<le> j \<and> j < length c \<longrightarrow> c ! ci \<le> c ! j"
      using sorted_wrt_nth_less [OF c] ci by (auto simp: less_imp_le)
    have k: "k = length c - (ci + 1)" using Suc.hyps(2) by simp
    have "\<exists>r. partition_after ops pw c (ci + 1) (c ! ci) ?ret1 = Inr r \<and> refines ops pw r \<and>
      set (cuts r) = set (cuts ?ret1) \<union> set (drop (ci + 1) c)"
    proof (rule Suc.hyps(1) [OF k r1 _ _ _ nxt])
      show "last (cuts ?ret1) = c ! ci" by simp
      show "cuts pw ! ?n \<le> c ! ci" using True Suc.prems(3) by simp
      show "ci + 1 \<le> length c" using ci by simp
    qed
    then obtain r where r: "partition_after ops pw c (ci + 1) (c ! ci) ?ret1 = Inr r" "refines ops pw r"
      "set (cuts r) = set (cuts ?ret1) \<union> set (drop (ci + 1) c)"
      by blast
    show ?thesis using step r dr by auto
  next
    case False
    then have eq: "c ! ci = prev" using Suc.prems(5) ci by force
    have step: "partition_after ops pw c ci prev ret = partition_after ops pw c (ci + 1) prev ret"
      by (subst partition_after.simps) (use ci False in simp)
    have k: "k = length c - (ci + 1)" using Suc.hyps(2) by simp
    have "\<exists>r. partition_after ops pw c (ci + 1) prev ret = Inr r \<and> refines ops pw r \<and>
      set (cuts r) = set (cuts ret) \<union> set (drop (ci + 1) c)"
    proof (rule Suc.hyps(1) [OF k Suc.prems(1,2,3)])
      show "ci + 1 \<le> length c" using ci by simp
      show "\<forall>j. ci + 1 \<le> j \<and> j < length c \<longrightarrow> prev \<le> c ! j" using Suc.prems(5) by simp
    qed
    then obtain r where r: "partition_after ops pw c (ci + 1) prev ret = Inr r" "refines ops pw r"
      "set (cuts r) = set (cuts ret) \<union> set (drop (ci + 1) c)"
      by blast
    have "c ! ci \<in> set (cuts ret)"
      using refines_last_mem [OF Suc.prems(1)] eq Suc.prems(2) by simp
    then show ?thesis using step r dr by auto
  qed
qed

lemma partition_main_refines:
  assumes srt: "sorted_wrt (<) (cuts pw)"
    and len: "length (cuts pw) = length (segs pw) + 1"
    and ne: "segs pw \<noteq> []"
    and c: "sorted_wrt (<) c"
  shows "refines ops pw ret \<Longrightarrow> last (cuts ret) = prev \<Longrightarrow>
     si \<le> length (segs pw) \<Longrightarrow> ci \<le> length c \<Longrightarrow>
     cuts pw ! si \<le> prev \<Longrightarrow>
     (si < length (segs pw) \<longrightarrow> prev < cuts pw ! (si + 1)) \<Longrightarrow>
     (\<forall>j. ci \<le> j \<and> j < length c \<longrightarrow> prev \<le> c ! j) \<Longrightarrow>
     (prev = cuts pw ! si \<or> (\<forall>j. ci \<le> j \<and> j < length c \<longrightarrow> prev < c ! j)) \<Longrightarrow>
     \<exists>r. partition_main ops pw c si ci prev ret = Inr r \<and> refines ops pw r \<and>
         set (cuts r) = set (cuts ret) \<union> set (drop (si + 1) (cuts pw)) \<union> set (drop ci c)"
proof (induction "(length (segs pw) - si) + (length c - ci)" arbitrary: si ci prev ret
    rule: less_induct)
  case less
  let ?n = "length (segs pw)"
  note r = less.prems(1) and lastp = less.prems(2) and sin = less.prems(3) and cil = less.prems(4)
    and lo = less.prems(5) and hi = less.prems(6) and ge = less.prems(7) and st = less.prems(8)
  have rlen: "length (cuts ret) = length (segs ret) + 1" using r by (simp add: refines_def)
  have mono: "\<And>a b. a < b \<Longrightarrow> b < length (cuts pw) \<Longrightarrow> cuts pw ! a < cuts pw ! b"
    using srt sorted_wrt_nth_less by blast
  have cmono: "\<And>a b. a < b \<Longrightarrow> b < length c \<Longrightarrow> c ! a < c ! b"
    using c sorted_wrt_nth_less by blast
  show ?case
  proof (cases "si < ?n")
    case False
    then have si: "si = ?n" using sin by simp
    have step: "partition_main ops pw c si ci prev ret = partition_after ops pw c ci prev ret"
      by (subst partition_main.simps) (use si in \<open>simp add: size_pw_def\<close>)
    obtain r' where "partition_after ops pw c ci prev ret = Inr r'" "refines ops pw r'"
      "set (cuts r') = set (cuts ret) \<union> set (drop ci c)"
      using partition_after_refines [OF srt len ne c r lastp _ cil ge] lo si by auto
    then show ?thesis using step si len by auto
  next
    case True
    note si = True
    have plt: "prev < cuts pw ! (si + 1)" using hi si by simp
    have wlt: "cuts pw ! si < cuts pw ! (si + 1)" using mono [of si "si + 1"] si len by simp
    have w: "cuts pw ! (si + 1) - cuts pw ! si \<noteq> 0" using wlt by simp
    have drc: "drop (si + 1) (cuts pw) = cuts pw ! (si + 1) # drop (si + 1 + 1) (cuts pw)"
      using si len by (simp add: Cons_nth_drop_Suc)
    show ?thesis
    proof (cases "ci = length c")
      case True
      note cend = True
      show ?thesis
      proof (cases "prev \<le> cuts pw ! si")
        case True
        then have peq: "last (cuts ret) = cuts pw ! si" using lo lastp by simp
        let ?r = "ret\<lparr>cuts := cuts ret @ drop (si + 1) (cuts pw), segs := segs ret @ drop si (segs pw)\<rparr>"
        have "partition_main ops pw c si ci prev ret = Inr ?r"
          by (subst partition_main.simps)
            (use si cend True len in \<open>simp add: size_pw_def rest_from_def\<close>)
        moreover have "refines ops pw ?r"
          using refines_copy_rest [OF srt len r peq] si by simp
        ultimately show ?thesis using cend by auto
      next
        case False
        then have pgt: "cuts pw ! si < prev" by simp
        let ?s = "seg_portion ops (segs pw ! si)
            ((prev - cuts pw ! si) / (cuts pw ! (si + 1) - cuts pw ! si)) 1"
        let ?ret1 = "ret\<lparr>cuts := cuts ret @ [cuts pw ! (si + 1)], segs := segs ret @ [?s]\<rparr>"
        have p: "piece_of ops pw si (last (cuts ret)) (cuts pw ! (si + 1)) ?s"
          unfolding piece_of_def lastp
          using si plt lo tail_piece_value [OF _ plt w] by auto
        have r1: "refines ops pw ?ret1" using refines_snoc [OF r p] .
        have pu: "push_cut (cuts pw ! (si + 1)) (push_seg ?s ret) = Inr ?ret1"
          using push_cut_seg_ok [of ret "cuts pw ! (si + 1)" ?s] plt lastp by simp
        have step: "partition_main ops pw c si ci prev ret =
            partition_main ops pw c (si + 1) ci (cuts pw ! (si + 1)) ?ret1"
          by (subst partition_main.simps)
            (use si cend False pgt len pu segT_ok [OF si len, of prev] in \<open>simp add: size_pw_def\<close>)
        have "\<exists>r'. partition_main ops pw c (si + 1) ci (cuts pw ! (si + 1)) ?ret1 = Inr r' \<and>
            refines ops pw r' \<and>
            set (cuts r') = set (cuts ?ret1) \<union> set (drop (si + 1 + 1) (cuts pw)) \<union> set (drop ci c)"
        proof (rule less.hyps [OF _ r1])
          show "?n - (si + 1) + (length c - ci) < ?n - si + (length c - ci)" using si by simp
          show "last (cuts ?ret1) = cuts pw ! (si + 1)" by simp
          show "si + 1 \<le> ?n" using si by simp
          show "ci \<le> length c" using cil .
          show "cuts pw ! (si + 1) \<le> cuts pw ! (si + 1)" by simp
          show "si + 1 < ?n \<longrightarrow> cuts pw ! (si + 1) < cuts pw ! (si + 1 + 1)"
            using mono [of "si + 1" "si + 1 + 1"] len by simp
          show "\<forall>j. ci \<le> j \<and> j < length c \<longrightarrow> cuts pw ! (si + 1) \<le> c ! j" using cend by simp
          show "cuts pw ! (si + 1) = cuts pw ! (si + 1) \<or>
              (\<forall>j. ci \<le> j \<and> j < length c \<longrightarrow> cuts pw ! (si + 1) < c ! j)" by simp
        qed
        then show ?thesis using step drc by auto
      qed
    next
      case False
      then have ci: "ci < length c" using cil by simp
      have dcc: "drop ci c = c ! ci # drop (ci + 1) c" using ci by (simp add: Cons_nth_drop_Suc)
      have pge: "prev \<le> c ! ci" using ge ci by simp
      show ?thesis
      proof (cases "c ! ci \<ge> cuts pw ! (si + 1)")
        case True
        note fin = True
        have gen: "\<forall>j. ci \<le> j \<and> j < length c \<longrightarrow> cuts pw ! (si + 1) \<le> c ! j"
        proof (intro allI impI)
          fix j assume j: "ci \<le> j \<and> j < length c"
          show "cuts pw ! (si + 1) \<le> c ! j"
            using fin cmono [of ci j] j by (cases "j = ci") auto
        qed
        define s where "s = (if prev > cuts pw ! si
            then seg_portion ops (segs pw ! si)
              ((prev - cuts pw ! si) / (cuts pw ! (si + 1) - cuts pw ! si)) 1
            else segs pw ! si)"
        let ?ret1 = "ret\<lparr>cuts := cuts ret @ [cuts pw ! (si + 1)], segs := segs ret @ [s]\<rparr>"
        have p: "piece_of ops pw si (last (cuts ret)) (cuts pw ! (si + 1)) s"
        proof (cases "prev > cuts pw ! si")
          case True
          then show ?thesis
            unfolding piece_of_def lastp s_def
            using si plt lo tail_piece_value [OF _ plt w] by auto
        next
          case False
          then have "prev = cuts pw ! si" using lo by simp
          then show ?thesis
            unfolding piece_of_def lastp s_def
            using si wlt by (auto simp: seg_value_def)
        qed
        have r1: "refines ops pw ?ret1" using refines_snoc [OF r p] .
        have pu: "push_cut (cuts pw ! (si + 1)) (push_seg s ret) = Inr ?ret1"
          using push_cut_seg_ok [of ret "cuts pw ! (si + 1)" s] plt lastp by simp
        have sel: "(if cuts pw ! si < prev
                     then bind_err (rd (segs pw) si) (\<lambda>s.
                          bind_err (segT pw prev (int si)) (\<lambda>u. Inr (seg_portion ops s u 1)))
                     else rd (segs pw) si) = Inr s"
          using si segT_ok [OF si len, of prev] by (simp add: s_def)
        have step: "partition_main ops pw c si ci prev ret =
            partition_main ops pw c (si + 1) ci (cuts pw ! (si + 1)) ?ret1"
          by (subst partition_main.simps)
            (use si ci fin len pu sel in \<open>simp add: size_pw_def split del: if_split\<close>)
        have "\<exists>r'. partition_main ops pw c (si + 1) ci (cuts pw ! (si + 1)) ?ret1 = Inr r' \<and>
            refines ops pw r' \<and>
            set (cuts r') = set (cuts ?ret1) \<union> set (drop (si + 1 + 1) (cuts pw)) \<union> set (drop ci c)"
        proof (rule less.hyps [OF _ r1])
          show "?n - (si + 1) + (length c - ci) < ?n - si + (length c - ci)" using si by simp
          show "last (cuts ?ret1) = cuts pw ! (si + 1)" by simp
          show "si + 1 \<le> ?n" using si by simp
          show "ci \<le> length c" using cil .
          show "cuts pw ! (si + 1) \<le> cuts pw ! (si + 1)" by simp
          show "si + 1 < ?n \<longrightarrow> cuts pw ! (si + 1) < cuts pw ! (si + 1 + 1)"
            using mono [of "si + 1" "si + 1 + 1"] len by simp
          show "\<forall>j. ci \<le> j \<and> j < length c \<longrightarrow> cuts pw ! (si + 1) \<le> c ! j" using gen .
          show "cuts pw ! (si + 1) = cuts pw ! (si + 1) \<or>
              (\<forall>j. ci \<le> j \<and> j < length c \<longrightarrow> cuts pw ! (si + 1) < c ! j)" by simp
        qed
        then show ?thesis using step drc by auto
      next
        case False
        then have xlt: "c ! ci < cuts pw ! (si + 1)" by simp
        have ge1: "\<forall>j. ci + 1 \<le> j \<and> j < length c \<longrightarrow> c ! ci \<le> c ! j"
          using cmono [of ci] by (auto simp: less_imp_le)
        have st1: "\<forall>j. ci + 1 \<le> j \<and> j < length c \<longrightarrow> c ! ci < c ! j"
          using cmono [of ci] by auto
        show ?thesis
        proof (cases "c ! ci = cuts pw ! si")
          case True
          then have peq: "prev = cuts pw ! si" using pge lo by simp
          have step: "partition_main ops pw c si ci prev ret =
              partition_main ops pw c si (ci + 1) prev ret"
            by (subst partition_main.simps)
              (use si ci xlt True len in \<open>simp add: size_pw_def\<close>)
          have "\<exists>r'. partition_main ops pw c si (ci + 1) prev ret = Inr r' \<and>
              refines ops pw r' \<and>
              set (cuts r') = set (cuts ret) \<union> set (drop (si + 1) (cuts pw)) \<union> set (drop (ci + 1) c)"
          proof (rule less.hyps [OF _ r lastp sin _ lo hi])
            show "?n - si + (length c - (ci + 1)) < ?n - si + (length c - ci)" using ci by simp
            show "ci + 1 \<le> length c" using ci by simp
            show "\<forall>j. ci + 1 \<le> j \<and> j < length c \<longrightarrow> prev \<le> c ! j" using ge by simp
            show "prev = cuts pw ! si \<or> (\<forall>j. ci + 1 \<le> j \<and> j < length c \<longrightarrow> prev < c ! j)"
              using peq by simp
          qed
          moreover have "c ! ci \<in> set (cuts ret)"
            using refines_last_mem [OF r] lastp peq True by simp
          ultimately show ?thesis using step dcc by auto
        next
          case False
          note ncoin = False
          have plx: "prev < c ! ci"
            using st pge ncoin ci by (cases "prev = cuts pw ! si") auto
          let ?s = "seg_portion ops (segs pw ! si)
              ((prev - cuts pw ! si) * (1 / (cuts pw ! (si + 1) - cuts pw ! si)))
              ((c ! ci - cuts pw ! si) * (1 / (cuts pw ! (si + 1) - cuts pw ! si)))"
          let ?ret1 = "ret\<lparr>cuts := cuts ret @ [c ! ci], segs := segs ret @ [?s]\<rparr>"
          have ep: "elem_portion ops pw si prev (c ! ci) = Inr ?s"
            using elem_portion_ok [OF si len] .
          have p: "piece_of ops pw si (last (cuts ret)) (c ! ci) ?s"
            unfolding piece_of_def lastp
            using si plx lo xlt elem_piece_value [OF _ plx w] by auto
          have r1: "refines ops pw ?ret1" using refines_snoc [OF r p] .
          have pu: "push ?s (c ! ci) ret = Inr ?ret1"
            using push_ok [OF rlen, of "c ! ci" ?s] plx lastp by simp
          have step: "partition_main ops pw c si ci prev ret =
              partition_main ops pw c si (ci + 1) (c ! ci) ?ret1"
            by (subst partition_main.simps)
              (use si ci xlt ncoin len ep pu in \<open>simp add: size_pw_def\<close>)
          have "\<exists>r'. partition_main ops pw c si (ci + 1) (c ! ci) ?ret1 = Inr r' \<and>
              refines ops pw r' \<and>
              set (cuts r') = set (cuts ?ret1) \<union> set (drop (si + 1) (cuts pw)) \<union> set (drop (ci + 1) c)"
          proof (rule less.hyps [OF _ r1 _ sin])
            show "?n - si + (length c - (ci + 1)) < ?n - si + (length c - ci)" using ci by simp
            show "last (cuts ?ret1) = c ! ci" by simp
            show "ci + 1 \<le> length c" using ci by simp
            show "cuts pw ! si \<le> c ! ci" using lo plx by simp
            show "si < ?n \<longrightarrow> c ! ci < cuts pw ! (si + 1)" using xlt by simp
            show "\<forall>j. ci + 1 \<le> j \<and> j < length c \<longrightarrow> c ! ci \<le> c ! j" using ge1 .
            show "c ! ci = cuts pw ! si \<or> (\<forall>j. ci + 1 \<le> j \<and> j < length c \<longrightarrow> c ! ci < c ! j)"
              using st1 by simp
          qed
          then show ?thesis using step dcc by auto
        qed
      qed
    qed
  qed
qed

text \<open>
  The first loop, when some extra cut is not before the domain: \<open>m\<close> is the index of the
  first such cut. Segment \<open>j\<close> made by the loop runs from \<open>c[j]\<close> to the next extra cut, the
  last one to the start of the domain.
\<close>

definition before_to :: "'s Piecewise \<Rightarrow> real list \<Rightarrow> nat \<Rightarrow> nat \<Rightarrow> real" where
  "before_to pw c m j = (if j = m then hd (cuts pw) else c ! j)"

definition before_seg :: "'s Fragment \<Rightarrow> 's Piecewise \<Rightarrow> real list \<Rightarrow> nat \<Rightarrow> nat \<Rightarrow> 's" where
  "before_seg ops pw c m j =
     seg_portion ops (segs pw ! 0)
       ((c ! j - cuts pw ! 0) * (1 / (cuts pw ! (0 + 1) - cuts pw ! 0)))
       ((before_to pw c m (j + 1) - cuts pw ! 0) * (1 / (cuts pw ! (0 + 1) - cuts pw ! 0)))"

lemma partition_before_result:
  assumes len: "length (cuts pw) = length (segs pw) + 1"
    and ne: "segs pw \<noteq> []"
    and c: "sorted_wrt (<) c"
    and m: "m < length c" "\<forall>j<m. c ! j < hd (cuts pw)" "hd (cuts pw) \<le> c ! m"
  shows "ci \<le> m \<Longrightarrow> cuts ret = [] \<or> ci = m \<or> last (cuts ret) < c ! ci \<Longrightarrow>
     partition_before ops pw c ci ret =
       Inr (m, ret\<lparr>cuts := cuts ret @ map ((!) c) [ci..<m],
                    segs := segs ret @ map (before_seg ops pw c m) [ci..<m]\<rparr>)"
proof (induction "m - ci" arbitrary: ci ret)
  case 0
  then have ci: "ci = m" by simp
  have cne: "cuts pw \<noteq> []" using len by auto
  show ?case
    by (subst partition_before.simps) (use ci m cne in simp)
next
  case (Suc k)
  then have ci: "ci < m" by simp
  have cne: "cuts pw \<noteq> []" using len by auto
  have xlt: "c ! ci < hd (cuts pw)" using m(2) ci by simp
  have cil: "ci < length c" "ci + 1 < length c" "ci \<noteq> length c - 1" using ci m(1) by simp_all
  have isl: "(hd (cuts pw) \<le> c ! (ci + 1)) = (ci + 1 = m)"
  proof (cases "ci + 1 = m")
    case True
    then show ?thesis using m(3) by simp
  next
    case False
    then have "ci + 1 < m" using ci by simp
    then show ?thesis using m(2) by auto
  qed
  have to: "(if ci + 1 = m then Inr (hd (cuts pw)) else rd c (ci + 1)) =
      Inr (before_to pw c m (ci + 1))"
    using cil by (simp add: before_to_def)
  have n0: "0 < length (segs pw)" using ne by simp
  have ep: "elem_portion ops pw 0 (c ! ci) (before_to pw c m (ci + 1)) = Inr (before_seg ops pw c m ci)"
    using elem_portion_ok [OF n0 len] by (simp add: before_seg_def)
  let ?ret1 = "ret\<lparr>cuts := cuts ret @ [c ! ci], segs := segs ret @ [before_seg ops pw c m ci]\<rparr>"
  have pc: "push_cut (c ! ci) ret = Inr (ret\<lparr>cuts := cuts ret @ [c ! ci]\<rparr>)"
    using Suc.prems(2) ci by (auto simp: push_cut_def)
  have step: "partition_before ops pw c ci ret = partition_before ops pw c (ci + 1) ?ret1"
    by (subst partition_before.simps)
      (use cne xlt cil isl to pc ep in \<open>simp add: push_seg_def split del: if_split\<close>)
  have k: "k = m - (ci + 1)" using Suc.hyps(2) by simp
  have nx: "cuts ?ret1 = [] \<or> ci + 1 = m \<or> last (cuts ?ret1) < c ! (ci + 1)"
    using sorted_wrt_nth_less [OF c, of ci "ci + 1"] cil by simp
  have "partition_before ops pw c (ci + 1) ?ret1 =
      Inr (m, ?ret1\<lparr>cuts := cuts ?ret1 @ map ((!) c) [ci + 1..<m],
                    segs := segs ?ret1 @ map (before_seg ops pw c m) [ci + 1..<m]\<rparr>)"
    using Suc.hyps(1) [OF k _ nx] ci by simp
  moreover have "[ci..<m] = ci # [ci + 1..<m]" using ci by (simp add: upt_conv_Cons)
  ultimately show ?case using step by simp
qed

lemma before_refines:
  assumes srt: "sorted_wrt (<) (cuts pw)"
    and len: "length (cuts pw) = length (segs pw) + 1"
    and ne: "segs pw \<noteq> []"
    and c: "sorted_wrt (<) c"
    and m: "m \<le> length c" "\<forall>j<m. c ! j < hd (cuts pw)"
  shows "k \<le> m \<Longrightarrow>
     refines ops pw \<lparr>cuts = map (before_to pw c m) [0..<k + 1],
                     segs = map (before_seg ops pw c m) [0..<k]\<rparr>"
proof (induction k)
  case 0
  show ?case by (simp add: refines_def)
next
  case (Suc k)
  let ?ret = "\<lparr>cuts = map (before_to pw c m) [0..<k + 1], segs = map (before_seg ops pw c m) [0..<k]\<rparr>"
  have k: "k < m" using Suc.prems by simp
  have r: "refines ops pw ?ret" using Suc.IH k by simp
  have cne: "cuts pw \<noteq> []" using len by auto
  have hd0: "hd (cuts pw) = cuts pw ! 0" using cne by (simp add: hd_conv_nth)
  have n0: "0 < length (segs pw)" using ne by simp
  have w01: "cuts pw ! 0 < cuts pw ! (0 + 1)"
    using sorted_wrt_nth_less [OF srt, of 0 1] n0 len by simp
  have w: "cuts pw ! (0 + 1) - cuts pw ! 0 \<noteq> 0" using w01 by simp
  have lastk: "last (cuts ?ret) = c ! k" using k by (simp add: before_to_def)
  have lt: "c ! k < before_to pw c m (k + 1)"
  proof (cases "k + 1 = m")
    case True
    then show ?thesis using m(2) k by (simp add: before_to_def)
  next
    case False
    then have "k + 1 < m" using k by simp
    then show ?thesis
      using sorted_wrt_nth_less [OF c, of k "k + 1"] m(1) by (simp add: before_to_def)
  qed
  have tole: "before_to pw c m (k + 1) \<le> cuts pw ! (0 + 1)"
  proof (cases "k + 1 = m")
    case True
    then show ?thesis using w01 hd0 by (simp add: before_to_def)
  next
    case False
    then have "k + 1 < m" using k by simp
    then have "c ! (k + 1) < hd (cuts pw)" using m(2) by simp
    then show ?thesis using False w01 hd0 by (simp add: before_to_def)
  qed
  have p: "piece_of ops pw 0 (last (cuts ?ret)) (before_to pw c m (k + 1)) (before_seg ops pw c m k)"
    unfolding piece_of_def lastk before_seg_def
    using n0 lt tole elem_piece_value [OF _ lt w] by auto
  have "refines ops pw (?ret\<lparr>cuts := cuts ?ret @ [before_to pw c m (k + 1)],
      segs := segs ?ret @ [before_seg ops pw c m k]\<rparr>)"
    using refines_snoc [OF r p] .
  then show ?case by simp
qed

lemma map_nth_take: "m \<le> length c \<Longrightarrow> map ((!) c) [0..<m] = take m c"
  by (simp add: list_eq_iff_nth_eq)

lemma partition_pw_refines:
  assumes srt: "sorted_wrt (<) (cuts pw)"
    and len: "length (cuts pw) = length (segs pw) + 1"
    and ne: "segs pw \<noteq> []"
    and c: "sorted_wrt (<) c" and cne: "c \<noteq> []"
    and reach: "hd (cuts pw) \<le> last c"
  shows "\<exists>r. partition_pw ops pw c = Inr r \<and> refines ops pw r \<and>
           set (cuts r) = set (cuts pw) \<union> set c"
proof -
  let ?f = "hd (cuts pw)" and ?n = "length (segs pw)"
  define m where "m = length (takeWhile (\<lambda>x. x < ?f) c)"
  have pne: "cuts pw \<noteq> []" using len by auto
  have hd0: "?f = cuts pw ! 0" using pne by (simp add: hd_conv_nth)
  have n0: "0 < ?n" using ne by simp
  have mlt: "m < length c"
  proof (rule ccontr)
    assume "\<not> m < length c"
    then have "length (takeWhile (\<lambda>x. x < ?f) c) = length c"
      using length_takeWhile_le [of "\<lambda>x. x < ?f" c] by (simp add: m_def)
    then have "takeWhile (\<lambda>x. x < ?f) c = c"
      by (metis takeWhile_eq_take take_all order_refl)
    then have "\<forall>x\<in>set c. x < ?f" by (metis set_takeWhileD)
    then have "last c < ?f" using cne by simp
    then show False using reach by simp
  qed
  have mb: "\<forall>j<m. c ! j < ?f"
  proof (intro allI impI)
    fix j assume j: "j < m"
    then have "takeWhile (\<lambda>x. x < ?f) c ! j \<in> set (takeWhile (\<lambda>x. x < ?f) c)"
      by (simp add: m_def)
    then have "takeWhile (\<lambda>x. x < ?f) c ! j < ?f" by (metis set_takeWhileD)
    then show "c ! j < ?f" using j by (simp add: m_def takeWhile_nth)
  qed
  have mge: "?f \<le> c ! m"
    using nth_length_takeWhile [of "\<lambda>x. x < ?f" c] mlt by (simp add: m_def)
  let ?retB = "\<lparr>cuts = map ((!) c) [0..<m], segs = map (before_seg ops pw c m) [0..<m]\<rparr>"
  have before: "partition_before ops pw c 0 Piecewise_empty = Inr (m, ?retB)"
    using partition_before_result [OF len ne c mlt mb mge, of 0 Piecewise_empty ops]
    by (simp add: Piecewise_empty_def)
  let ?ret1 = "\<lparr>cuts = map (before_to pw c m) [0..<m + 1], segs = map (before_seg ops pw c m) [0..<m]\<rparr>"
  have bt: "map (before_to pw c m) [0..<m + 1] = map ((!) c) [0..<m] @ [cuts pw ! 0]"
    using hd0 by (simp add: before_to_def)
  have lastB: "m = 0 \<or> last (map ((!) c) [0..<m]) < cuts pw ! 0"
  proof (cases "m = 0")
    case False
    then have "last (map ((!) c) [0..<m]) = c ! (m - 1)" by (simp add: last_map last_upt)
    then show ?thesis using mb False hd0 by simp
  qed simp
  have pc: "push_cut (cuts pw ! 0) ?retB = Inr ?ret1"
    unfolding bt using lastB by (auto simp: push_cut_def)
  have eq: "partition_pw ops pw c = partition_main ops pw c 0 m (cuts pw ! 0) ?ret1"
    using cne ne before pne pc by (simp add: partition_pw_def empty_pw_def)
  have r1: "refines ops pw ?ret1"
    using before_refines [OF srt len ne c less_imp_le [OF mlt] mb, of m] by simp
  have l1: "last (cuts ?ret1) = cuts pw ! 0" unfolding bt by simp
  have w01: "cuts pw ! 0 < cuts pw ! (0 + 1)"
    using sorted_wrt_nth_less [OF srt, of 0 1] n0 len by simp
  have ge: "\<forall>j. m \<le> j \<and> j < length c \<longrightarrow> cuts pw ! 0 \<le> c ! j"
  proof (intro allI impI)
    fix j assume j: "m \<le> j \<and> j < length c"
    show "cuts pw ! 0 \<le> c ! j"
      using mge hd0 sorted_wrt_nth_less [OF c, of m j] j by (cases "j = m") auto
  qed
  obtain r where r: "partition_main ops pw c 0 m (cuts pw ! 0) ?ret1 = Inr r" "refines ops pw r"
    "set (cuts r) = set (cuts ?ret1) \<union> set (drop (0 + 1) (cuts pw)) \<union> set (drop m c)"
    using partition_main_refines [OF srt len ne c r1 l1, of 0 m] mlt w01 ge by auto
  have s1: "set (cuts ?ret1) = set (take m c) \<union> {cuts pw ! 0}"
    unfolding Piecewise.simps bt using map_nth_take [of m c] mlt by simp
  have s2: "{cuts pw ! 0} \<union> set (drop (0 + 1) (cuts pw)) = set (cuts pw)"
    using pne by (cases "cuts pw") simp_all
  have s3: "set (take m c) \<union> set (drop m c) = set c"
    by (metis append_take_drop_id set_append)
  have "set (cuts r) = set (cuts pw) \<union> set c"
    using r(3) s1 s2 s3 by auto
  then show ?thesis using eq r(1,2) by simp
qed

subsection \<open>Binary operators\<close>

text \<open>
  \<open>operator+\<close>, \<open>operator-\<close> and \<open>operator*\<close> on two functions: both operands are
  partitioned by the cuts of the other, the sizes are asserted equal, and the loop
  \<open>for i < pa.size()\<close> pushes \<open>pa[i] + pb[i]\<close> (\<open>operator*\<close> is modelled for one
  segment type).
\<close>

definition add_pw :: "'s Fragment \<Rightarrow> 's Piecewise \<Rightarrow> 's Piecewise \<Rightarrow> error + 's Piecewise" where
  "add_pw ops a b =
     bind_err (partition_pw ops a (cuts b)) (\<lambda>pa.
     bind_err (partition_pw ops b (cuts a)) (\<lambda>pb.
     bind_err (assert_that (size_pw pa = size_pw pb)) (\<lambda>_.
       Inr \<lparr>cuts = cuts pa, segs = map2 (seg_add ops) (segs pa) (segs pb)\<rparr>)))"

definition sub_pw :: "'s Fragment \<Rightarrow> 's Piecewise \<Rightarrow> 's Piecewise \<Rightarrow> error + 's Piecewise" where
  "sub_pw ops a b =
     bind_err (partition_pw ops a (cuts b)) (\<lambda>pa.
     bind_err (partition_pw ops b (cuts a)) (\<lambda>pb.
     bind_err (assert_that (size_pw pa = size_pw pb)) (\<lambda>_.
       Inr \<lparr>cuts = cuts pa, segs = map2 (seg_sub ops) (segs pa) (segs pb)\<rparr>)))"

definition mul_pw :: "'s Fragment \<Rightarrow> 's Piecewise \<Rightarrow> 's Piecewise \<Rightarrow> error + 's Piecewise" where
  "mul_pw ops a b =
     bind_err (partition_pw ops a (cuts b)) (\<lambda>pa.
     bind_err (partition_pw ops b (cuts a)) (\<lambda>pb.
     bind_err (assert_that (size_pw pa = size_pw pb)) (\<lambda>_.
       Inr \<lparr>cuts = cuts pa, segs = map2 (seg_mul ops) (segs pa) (segs pb)\<rparr>)))"

definition exact_arith :: "'s Fragment \<Rightarrow> bool" where
  "exact_arith ops \<longleftrightarrow>
     (\<forall>s1 s2 u. seg_at ops (seg_add ops s1 s2) u = seg_at ops s1 u + seg_at ops s2 u) \<and>
     (\<forall>s1 s2 u. seg_at ops (seg_mul ops s1 s2) u = seg_at ops s1 u * seg_at ops s2 u)"

lemma strict_sorted_ends:
  fixes xs :: "real list"
  assumes "sorted_wrt (<) xs" "x \<in> set xs"
  shows "xs ! 0 \<le> x" and "x \<le> xs ! (length xs - 1)"
proof -
  obtain k where k: "k < length xs" "x = xs ! k" using assms(2) by (auto simp: in_set_conv_nth)
  show "xs ! 0 \<le> x"
    using sorted_wrt_nth_less [OF assms(1), of 0 k] k by (cases "k = 0") auto
  show "x \<le> xs ! (length xs - 1)"
  proof (cases "k = length xs - 1")
    case True
    then show ?thesis using k by simp
  next
    case False
    then have "k < length xs - 1" "length xs - 1 < length xs" using k by simp_all
    then show ?thesis using sorted_wrt_nth_less [OF assms(1), of k "length xs - 1"] k by simp
  qed
qed

lemma partition_pw_correct:
  assumes ex: "exact_portion ops"
    and inv: "invariants pw" and ne: "segs pw \<noteq> []"
    and c: "sorted_wrt (<) c" and cne: "c \<noteq> []"
    and reach: "hd (cuts pw) \<le> last c"
  shows "\<exists>r. partition_pw ops pw c = Inr r \<and> invariants r \<and> segs r \<noteq> [] \<and>
           set (cuts r) = set (cuts pw) \<union> set c \<and>
           (\<forall>t. valueAt ops r t = valueAt ops pw t)"
proof -
  let ?n = "length (segs pw)"
  have srt: "sorted_wrt (<) (cuts pw)" and len: "length (cuts pw) = ?n + 1"
    using invariants_sorted [OF inv ne] by simp_all
  obtain r where r: "partition_pw ops pw c = Inr r" "refines ops pw r"
    "set (cuts r) = set (cuts pw) \<union> set c"
    using partition_pw_refines [OF srt len ne c cne reach] by blast
  have rlen: "length (cuts r) = length (segs r) + 1" and rsrt: "sorted_wrt (<) (cuts r)"
    using r(2) by (simp_all add: refines_def)
  have "card (set (cuts pw)) \<le> card (set (cuts r))"
    using r(3) by (simp add: card_mono)
  moreover have "card (set (cuts pw)) = length (cuts pw)" "card (set (cuts r)) = length (cuts r)"
    using srt rsrt by (simp_all add: strict_sorted_iff distinct_card)
  ultimately have rne: "segs r \<noteq> []" using len rlen ne by auto
  have rinv: "invariants r"
    using rlen sorted_wrt_nth_less [OF rsrt] by (simp add: invariants_iff)
  have "cuts pw ! 0 \<in> set (cuts r)" "cuts pw ! ?n \<in> set (cuts r)"
    using r(3) len by simp_all
  then have ends: "cuts r ! 0 \<le> cuts pw ! 0" "cuts pw ! ?n \<le> cuts r ! length (segs r)"
    using strict_sorted_ends [OF rsrt] rlen by simp_all
  have "\<forall>t. valueAt ops r t = valueAt ops pw t"
    using refines_valueAt [OF ex srt len r(2) rne] ends by simp
  then show ?thesis using r(1,3) rinv rne by blast
qed

lemma partition_cuts_commute:
  assumes a: "invariants a" "segs a \<noteq> []" and b: "invariants b" "segs b \<noteq> []"
    and ab: "hd (cuts a) \<le> last (cuts b)" and ba: "hd (cuts b) \<le> last (cuts a)"
  shows "\<exists>pa pb. partition_pw ops a (cuts b) = Inr pa \<and> partition_pw ops b (cuts a) = Inr pb \<and>
           cuts pa = cuts pb \<and> length (segs pa) = length (segs pb) \<and>
           sorted_wrt (<) (cuts pa) \<and> length (cuts pa) = length (segs pa) + 1 \<and>
           set (cuts pa) = set (cuts a) \<union> set (cuts b)"
proof -
  have sa: "sorted_wrt (<) (cuts a)" and la: "length (cuts a) = length (segs a) + 1"
    using invariants_sorted [OF a] by simp_all
  have sb: "sorted_wrt (<) (cuts b)" and lb: "length (cuts b) = length (segs b) + 1"
    using invariants_sorted [OF b] by simp_all
  have nea: "cuts a \<noteq> []" and neb: "cuts b \<noteq> []" using la lb by auto
  obtain pa where pa: "partition_pw ops a (cuts b) = Inr pa" "refines ops a pa"
    "set (cuts pa) = set (cuts a) \<union> set (cuts b)"
    using partition_pw_refines [OF sa la a(2) sb neb ab] by blast
  obtain pb where pb: "partition_pw ops b (cuts a) = Inr pb" "refines ops b pb"
    "set (cuts pb) = set (cuts b) \<union> set (cuts a)"
    using partition_pw_refines [OF sb lb b(2) sa nea ba] by blast
  have spa: "sorted_wrt (<) (cuts pa)" and lpa: "length (cuts pa) = length (segs pa) + 1"
    using pa(2) by (simp_all add: refines_def)
  have spb: "sorted_wrt (<) (cuts pb)" and lpb: "length (cuts pb) = length (segs pb) + 1"
    using pb(2) by (simp_all add: refines_def)
  have "set (cuts pa) = set (cuts pb)" using pa(3) pb(3) by auto
  then have eq: "cuts pa = cuts pb"
    using spa spb by (intro sorted_distinct_set_unique) (simp_all add: strict_sorted_iff)
  then have "length (segs pa) = length (segs pb)" using lpa lpb by simp
  then show ?thesis using pa(1,3) pb(1) eq spa lpa by blast
qed

lemma segN_same_cuts:
  assumes c: "cuts a = cuts b" and l: "length (segs a) = length (segs b)"
  shows "segN a t lo hi = segN b t lo hi"
  unfolding segN_def size_pw_def c l ..

lemma valueAt_of_segN:
  "segN pw t 0 (- 1) = Inr k \<Longrightarrow> k < length (segs pw) \<Longrightarrow>
   length (cuts pw) = length (segs pw) + 1 \<Longrightarrow>
   valueAt ops pw t = Inr (seg_value ops pw k t)"
  by (simp add: valueAt_def segT_def seg_value_def nat_add_distrib)

text \<open>
  C3. For non-empty \<open>a\<close> and \<open>b\<close> that meet the invariants and whose domains share at
  least one point (neither starts after the other ends; the domains need not be equal),
  with exact segment restriction, addition and multiplication: both mutual partitions
  succeed and have the same cuts and the same number of segments, \<open>a + b\<close> and \<open>a * b\<close>
  are made of the pairwise sums and products of their segments, and at every time \<open>t\<close>
  (in particular every \<open>t\<close> of the shared domain) \<open>(a + b)(t) = a(t) + b(t)\<close> and
  \<open>(a * b)(t) = a(t) * b(t)\<close>.
\<close>

theorem add_mul_pointwise:
  assumes ex: "exact_portion ops" and ar: "exact_arith ops"
    and a: "invariants a" "segs a \<noteq> []" and b: "invariants b" "segs b \<noteq> []"
    and ab: "hd (cuts a) \<le> last (cuts b)" and ba: "hd (cuts b) \<le> last (cuts a)"
  shows "\<exists>pa pb r q va vb.
      partition_pw ops a (cuts b) = Inr pa \<and> partition_pw ops b (cuts a) = Inr pb \<and>
      cuts pa = cuts pb \<and> length (segs pa) = length (segs pb) \<and>
      add_pw ops a b = Inr r \<and> mul_pw ops a b = Inr q \<and>
      cuts r = cuts pa \<and> segs r = map2 (seg_add ops) (segs pa) (segs pb) \<and>
      cuts q = cuts pa \<and> segs q = map2 (seg_mul ops) (segs pa) (segs pb) \<and>
      valueAt ops a t = Inr va \<and> valueAt ops b t = Inr vb \<and>
      valueAt ops r t = Inr (va + vb) \<and> valueAt ops q t = Inr (va * vb)"
proof -
  have sa: "sorted_wrt (<) (cuts a)" and la: "length (cuts a) = length (segs a) + 1"
    using invariants_sorted [OF a] by simp_all
  have sb: "sorted_wrt (<) (cuts b)" and lb: "length (cuts b) = length (segs b) + 1"
    using invariants_sorted [OF b] by simp_all
  have nea: "cuts a \<noteq> []" and neb: "cuts b \<noteq> []" using la lb by auto
  obtain pa where pa: "partition_pw ops a (cuts b) = Inr pa" "invariants pa" "segs pa \<noteq> []"
    "set (cuts pa) = set (cuts a) \<union> set (cuts b)" "\<forall>t. valueAt ops pa t = valueAt ops a t"
    using partition_pw_correct [OF ex a sb neb ab] by blast
  obtain pb where pb: "partition_pw ops b (cuts a) = Inr pb" "invariants pb" "segs pb \<noteq> []"
    "set (cuts pb) = set (cuts b) \<union> set (cuts a)" "\<forall>t. valueAt ops pb t = valueAt ops b t"
    using partition_pw_correct [OF ex b sa nea ba] by blast
  have spa: "sorted_wrt (<) (cuts pa)" and lpa: "length (cuts pa) = length (segs pa) + 1"
    using invariants_sorted [OF pa(2,3)] by simp_all
  have spb: "sorted_wrt (<) (cuts pb)" and lpb: "length (cuts pb) = length (segs pb) + 1"
    using invariants_sorted [OF pb(2,3)] by simp_all
  have "set (cuts pa) = set (cuts pb)" using pa(4) pb(4) by auto
  then have eqc: "cuts pa = cuts pb"
    using spa spb by (intro sorted_distinct_set_unique) (simp_all add: strict_sorted_iff)
  then have eql: "length (segs pa) = length (segs pb)" using lpa lpb by simp
  define r where "r = \<lparr>cuts = cuts pa, segs = map2 (seg_add ops) (segs pa) (segs pb)\<rparr>"
  define q where "q = \<lparr>cuts = cuts pa, segs = map2 (seg_mul ops) (segs pa) (segs pb)\<rparr>"
  have r: "add_pw ops a b = Inr r"
    using pa(1) pb(1) eql by (simp add: add_pw_def size_pw_def r_def)
  have q: "mul_pw ops a b = Inr q"
    using pa(1) pb(1) eql by (simp add: mul_pw_def size_pw_def q_def)
  obtain k where k: "segN pa t 0 (- 1) = Inr k" "k < length (segs pa)"
    using segN_spec [OF spa lpa pa(3), of 0 t] by auto
  have kb: "segN pb t 0 (- 1) = Inr k"
    using segN_same_cuts [OF eqc eql, of t 0 "- 1"] k(1) by simp
  have kr: "segN r t 0 (- 1) = Inr k"
    using segN_same_cuts [of r pa t 0 "- 1"] k(1) eql by (simp add: r_def)
  have kq: "segN q t 0 (- 1) = Inr k"
    using segN_same_cuts [of q pa t 0 "- 1"] k(1) eql by (simp add: q_def)
  have va: "valueAt ops a t = Inr (seg_value ops pa k t)"
    using valueAt_of_segN [OF k lpa, of ops] pa(5) by simp
  have vb: "valueAt ops b t = Inr (seg_value ops pb k t)"
    using valueAt_of_segN [OF kb _ lpb, of ops] k(2) eql pb(5) by simp
  have vr: "valueAt ops r t = Inr (seg_value ops r k t)"
    using valueAt_of_segN [OF kr, of ops] k(2) eql lpa by (simp add: r_def)
  have vq: "valueAt ops q t = Inr (seg_value ops q k t)"
    using valueAt_of_segN [OF kq, of ops] k(2) eql lpa by (simp add: q_def)
  have sr: "seg_value ops r k t = seg_value ops pa k t + seg_value ops pb k t"
    using ar k(2) eql eqc by (simp add: seg_value_def r_def exact_arith_def)
  have sq: "seg_value ops q k t = seg_value ops pa k t * seg_value ops pb k t"
    using ar k(2) eql eqc by (simp add: seg_value_def q_def exact_arith_def)
  have "partition_pw ops a (cuts b) = Inr pa \<and> partition_pw ops b (cuts a) = Inr pb \<and>
      cuts pa = cuts pb \<and> length (segs pa) = length (segs pb) \<and>
      add_pw ops a b = Inr r \<and> mul_pw ops a b = Inr q \<and>
      cuts r = cuts pa \<and> segs r = map2 (seg_add ops) (segs pa) (segs pb) \<and>
      cuts q = cuts pa \<and> segs q = map2 (seg_mul ops) (segs pa) (segs pb) \<and>
      valueAt ops a t = Inr (seg_value ops pa k t) \<and> valueAt ops b t = Inr (seg_value ops pb k t) \<and>
      valueAt ops r t = Inr (seg_value ops pa k t + seg_value ops pb k t) \<and>
      valueAt ops q t = Inr (seg_value ops pa k t * seg_value ops pb k t)"
    using pa(1) pb(1) eqc eql r q va vb vr vq sr sq by (simp add: r_def q_def)
  then show ?thesis by blast
qed

lemma poly_ops_exact_portion: "exact_portion poly_ops"
  by (simp add: exact_portion_def poly_ops_def algebra_simps)

lemma poly_ops_exact_arith: "exact_arith poly_ops"
  by (simp add: exact_arith_def poly_ops_def)

theorem add_mul_pointwise_witness:
  "exact_portion poly_ops \<and> exact_arith poly_ops \<and>
   invariants \<lparr>cuts = [1, 2, 3], segs = [[1], [0, 1 :: real]]\<rparr> \<and>
   invariants \<lparr>cuts = [0, 3 / 2, 5 / 2], segs = [[2], [1, 1 :: real]]\<rparr> \<and>
   (\<exists>pa pb r q va vb.
      partition_pw poly_ops \<lparr>cuts = [1, 2, 3], segs = [[1], [0, 1]]\<rparr> [0, 3 / 2, 5 / 2] = Inr pa \<and>
      partition_pw poly_ops \<lparr>cuts = [0, 3 / 2, 5 / 2], segs = [[2], [1, 1]]\<rparr> [1, 2, 3] = Inr pb \<and>
      cuts pa = cuts pb \<and>
      add_pw poly_ops \<lparr>cuts = [1, 2, 3], segs = [[1], [0, 1]]\<rparr>
        \<lparr>cuts = [0, 3 / 2, 5 / 2], segs = [[2], [1, 1]]\<rparr> = Inr r \<and>
      mul_pw poly_ops \<lparr>cuts = [1, 2, 3], segs = [[1], [0, 1]]\<rparr>
        \<lparr>cuts = [0, 3 / 2, 5 / 2], segs = [[2], [1, 1]]\<rparr> = Inr q \<and>
      valueAt poly_ops \<lparr>cuts = [1, 2, 3], segs = [[1], [0, 1]]\<rparr> 2 = Inr va \<and>
      valueAt poly_ops \<lparr>cuts = [0, 3 / 2, 5 / 2], segs = [[2], [1, 1]]\<rparr> 2 = Inr vb \<and>
      valueAt poly_ops r 2 = Inr (va + vb) \<and> valueAt poly_ops q 2 = Inr (va * vb))"
proof -
  let ?a = "\<lparr>cuts = [1, 2, 3], segs = [[1], [0, 1 :: real]]\<rparr>"
  let ?b = "\<lparr>cuts = [0, 3 / 2, 5 / 2], segs = [[2], [1, 1 :: real]]\<rparr>"
  have ia: "invariants ?a" by (simp add: invariants_iff less_Suc_eq)
  have ib: "invariants ?b" by (simp add: invariants_iff less_Suc_eq)
  have "\<exists>pa pb r q va vb.
      partition_pw poly_ops ?a (cuts ?b) = Inr pa \<and> partition_pw poly_ops ?b (cuts ?a) = Inr pb \<and>
      cuts pa = cuts pb \<and> length (segs pa) = length (segs pb) \<and>
      add_pw poly_ops ?a ?b = Inr r \<and> mul_pw poly_ops ?a ?b = Inr q \<and>
      cuts r = cuts pa \<and> segs r = map2 (seg_add poly_ops) (segs pa) (segs pb) \<and>
      cuts q = cuts pa \<and> segs q = map2 (seg_mul poly_ops) (segs pa) (segs pb) \<and>
      valueAt poly_ops ?a 2 = Inr va \<and> valueAt poly_ops ?b 2 = Inr vb \<and>
      valueAt poly_ops r 2 = Inr (va + vb) \<and> valueAt poly_ops q 2 = Inr (va * vb)"
    by (rule add_mul_pointwise [OF poly_ops_exact_portion poly_ops_exact_arith ia _ ib])
      simp_all
  then obtain pa pb r q va vb where
      "partition_pw poly_ops ?a (cuts ?b) = Inr pa" "partition_pw poly_ops ?b (cuts ?a) = Inr pb"
      "cuts pa = cuts pb" "add_pw poly_ops ?a ?b = Inr r" "mul_pw poly_ops ?a ?b = Inr q"
      "valueAt poly_ops ?a 2 = Inr va" "valueAt poly_ops ?b 2 = Inr vb"
      "valueAt poly_ops r 2 = Inr (va + vb)" "valueAt poly_ops q 2 = Inr (va * vb)"
    by blast
  then have "\<exists>pa pb r q va vb.
      partition_pw poly_ops ?a [0, 3 / 2, 5 / 2] = Inr pa \<and>
      partition_pw poly_ops ?b [1, 2, 3] = Inr pb \<and>
      cuts pa = cuts pb \<and>
      add_pw poly_ops ?a ?b = Inr r \<and> mul_pw poly_ops ?a ?b = Inr q \<and>
      valueAt poly_ops ?a 2 = Inr va \<and> valueAt poly_ops ?b 2 = Inr vb \<and>
      valueAt poly_ops r 2 = Inr (va + vb) \<and> valueAt poly_ops q 2 = Inr (va * vb)"
    by (intro exI [of _ pa] exI [of _ pb] exI [of _ r] exI [of _ q] exI [of _ va] exI [of _ vb]) simp
  then show ?thesis
    using poly_ops_exact_portion poly_ops_exact_arith ia ib by simp
qed

subsection \<open>portion preserves values\<close>

lemma refines_copy_range:
  assumes srt: "sorted_wrt (<) (cuts pw)" and len: "length (cuts pw) = length (segs pw) + 1"
  shows "refines ops pw ret \<Longrightarrow> last (cuts ret) = cuts pw ! si \<Longrightarrow> si + k \<le> length (segs pw) \<Longrightarrow>
     refines ops pw (ret\<lparr>cuts := cuts ret @ take k (drop (si + 1) (cuts pw)),
                          segs := segs ret @ take k (drop si (segs pw))\<rparr>)"
proof (induction k arbitrary: si ret)
  case 0
  then show ?case by simp
next
  case (Suc k)
  then have si: "si < length (segs pw)" by simp
  have lt: "cuts pw ! si < cuts pw ! (si + 1)"
    using sorted_wrt_nth_less [OF srt, of si "si + 1"] si len by simp
  have p: "piece_of ops pw si (last (cuts ret)) (cuts pw ! (si + 1)) (segs pw ! si)"
    using si lt Suc.prems(2) by (simp add: piece_of_def seg_value_def)
  let ?ret1 = "ret\<lparr>cuts := cuts ret @ [cuts pw ! (si + 1)], segs := segs ret @ [segs pw ! si]\<rparr>"
  have r1: "refines ops pw ?ret1" using refines_snoc [OF Suc.prems(1) p] .
  have l1: "last (cuts ?ret1) = cuts pw ! (si + 1)" by simp
  have "refines ops pw (?ret1\<lparr>cuts := cuts ?ret1 @ take k (drop (si + 1 + 1) (cuts pw)),
                          segs := segs ?ret1 @ take k (drop (si + 1) (segs pw))\<rparr>)"
    using Suc.prems(3) by (intro Suc.IH r1 l1) simp
  moreover have "drop (si + 1) (cuts pw) = cuts pw ! (si + 1) # drop (si + 1 + 1) (cuts pw)"
    using si len by (simp add: Cons_nth_drop_Suc)
  moreover have "drop si (segs pw) = segs pw ! si # drop (si + 1) (segs pw)"
    using si by (simp add: Cons_nth_drop_Suc)
  ultimately show ?case by simp
qed

lemma portion_pw_refines:
  assumes srt: "sorted_wrt (<) (cuts pw)"
    and len: "length (cuts pw) = length (segs pw) + 1"
    and ne: "segs pw \<noteq> []"
    and lt: "lo < hi"
    and nc: "hi \<notin> set (cuts pw) \<or> cuts pw ! length (segs pw) \<le> hi"
  shows "\<exists>r. portion_pw ops pw lo hi = Inr r \<and> refines ops pw r \<and>
           cuts r \<noteq> [] \<and> hd (cuts r) = lo \<and> last (cuts r) = hi"
proof -
  let ?n = "length (segs pw)"
  have mono: "\<And>a b. a < b \<Longrightarrow> b < length (cuts pw) \<Longrightarrow> cuts pw ! a < cuts pw ! b"
    using srt sorted_wrt_nth_less by blast
  obtain i where i: "segN pw lo 0 (- 1) = Inr i" "i < ?n"
    "lo < cuts pw ! 0 \<longrightarrow> i = 0" "cuts pw ! ?n \<le> lo \<longrightarrow> i = ?n - 1"
    "cuts pw ! 0 \<le> lo \<and> lo < cuts pw ! ?n \<longrightarrow> cuts pw ! i \<le> lo \<and> lo < cuts pw ! (i + 1)"
    using segN_spec [OF srt len ne, of 0 lo] by auto
  have wlt: "cuts pw ! i < cuts pw ! (i + 1)" using mono [of i "i + 1"] i(2) len by simp
  have w: "cuts pw ! (i + 1) - cuts pw ! i \<noteq> 0" using wlt by simp
  have ilo: "i = 0 \<or> cuts pw ! i \<le> lo"
  proof (cases "lo < cuts pw ! 0")
    case True
    then show ?thesis using i(3) by simp
  next
    case False
    note ge0 = False
    show ?thesis
    proof (cases "cuts pw ! ?n \<le> lo")
      case True
      then have "i + 1 = ?n" using i(4) i(2) by simp
      then show ?thesis using wlt True by simp
    next
      case False
      then show ?thesis using i(5) ge0 by simp
    qed
  qed
  let ?r0 = "\<lparr>cuts = [lo], segs = []\<rparr> :: 'a Piecewise"
  have r0: "refines ops pw ?r0" by (simp add: refines_def)
  show ?thesis
  proof (cases "i = ?n - 1 \<or> hi < cuts pw ! (i + 1)")
    case True
    let ?s = "seg_portion ops (segs pw ! i)
              ((lo - cuts pw ! i) * (1 / (cuts pw ! (i + 1) - cuts pw ! i)))
              ((hi - cuts pw ! i) * (1 / (cuts pw ! (i + 1) - cuts pw ! i)))"
    have res: "portion_pw ops pw lo hi = Inr \<lparr>cuts = [lo, hi], segs = [?s]\<rparr>"
      using portion_pw_single [OF srt len ne lt i(1,2) True] .
    have p: "piece_of ops pw i (last (cuts ?r0)) hi ?s"
      unfolding piece_of_def
      using i(2) lt ilo True elem_piece_value [OF _ lt w] by auto
    have "refines ops pw (?r0\<lparr>cuts := cuts ?r0 @ [hi], segs := segs ?r0 @ [?s]\<rparr>)"
      using refines_snoc [OF r0 p] .
    then have "refines ops pw \<lparr>cuts = [lo, hi], segs = [?s]\<rparr>" by simp
    then show ?thesis using res by simp
  next
    case False
    then have ns: "i \<noteq> ?n - 1" "cuts pw ! (i + 1) \<le> hi"
      by (simp_all only: de_Morgan_disj not_less) simp_all
    have i1: "i + 1 \<le> ?n" using i(2) by simp
    have i1n: "i + 1 < ?n" using i(2) ns(1) by simp
    obtain fi where fi: "segN pw hi (int (i + 1)) (- 1) = Inr fi" "fi < ?n"
      "cuts pw ! ?n \<le> hi \<longrightarrow> fi = ?n - 1"
      "cuts pw ! 0 \<le> hi \<and> hi < cuts pw ! ?n \<longrightarrow>
         i + 1 \<le> fi \<and> cuts pw ! fi \<le> hi \<and> hi < cuts pw ! (fi + 1)"
      using segN_spec [OF srt len ne i1, of hi] ns(2) by auto
    have c0: "cuts pw ! 0 \<le> cuts pw ! (i + 1)"
      using mono [of 0 "i + 1"] i(2) len by simp
    have fib: "i + 1 \<le> fi \<and> cuts pw ! fi < hi \<and> (fi = ?n - 1 \<or> hi \<le> cuts pw ! (fi + 1))"
    proof (cases "cuts pw ! ?n \<le> hi")
      case True
      then have "fi = ?n - 1" using fi(3) by simp
      moreover have "cuts pw ! (?n - 1) < cuts pw ! ?n"
        using mono [of "?n - 1" ?n] i(2) len by simp
      ultimately show ?thesis using True i1n by auto
    next
      case False
      then have a: "i + 1 \<le> fi" "cuts pw ! fi \<le> hi" "hi < cuts pw ! (fi + 1)"
        using fi(4) c0 ns(2) by auto
      have "hi \<notin> set (cuts pw)" using nc False by simp
      moreover have "cuts pw ! fi \<in> set (cuts pw)" using fi(2) len by simp
      ultimately have "cuts pw ! fi \<noteq> hi" by auto
      then show ?thesis using a by simp
    qed
    have lolt: "lo < cuts pw ! (i + 1)"
    proof (cases "lo < cuts pw ! 0")
      case True
      then show ?thesis using c0 by simp
    next
      case False
      moreover have "\<not> cuts pw ! ?n \<le> lo" using i(4) ns(1) by auto
      ultimately show ?thesis using i(5) by simp
    qed
    let ?tail = "seg_portion ops (segs pw ! i) ((lo - cuts pw ! i) / (cuts pw ! (i + 1) - cuts pw ! i)) 1"
    let ?head = "seg_portion ops (segs pw ! fi) 0 ((hi - cuts pw ! fi) / (cuts pw ! (fi + 1) - cuts pw ! fi))"
    have res: "portion_pw ops pw lo hi =
      Inr \<lparr>cuts = lo # take (fi - i) (drop (i + 1) (cuts pw)) @ [hi],
           segs = ?tail # take (fi - (i + 1)) (drop (i + 1) (segs pw)) @ [?head]\<rparr>"
      using portion_pw_multi [OF len ne lt i(1,2) ns fi(1) _ fi(2), of ops] fib by simp
    have p1: "piece_of ops pw i (last (cuts ?r0)) (cuts pw ! (i + 1)) ?tail"
      unfolding piece_of_def
      using i(2) lolt ilo tail_piece_value [OF _ lolt w] by auto
    let ?r1 = "?r0\<lparr>cuts := cuts ?r0 @ [cuts pw ! (i + 1)], segs := segs ?r0 @ [?tail]\<rparr>"
    have r1: "refines ops pw ?r1" using refines_snoc [OF r0 p1] .
    have l1: "last (cuts ?r1) = cuts pw ! (i + 1)" by simp
    let ?r2 = "?r1\<lparr>cuts := cuts ?r1 @ take (fi - (i + 1)) (drop (i + 1 + 1) (cuts pw)),
                   segs := segs ?r1 @ take (fi - (i + 1)) (drop (i + 1) (segs pw))\<rparr>"
    have r2: "refines ops pw ?r2"
      using refines_copy_range [OF srt len r1 l1, of "fi - (i + 1)"] fib fi(2) by simp
    have tk: "take (fi - i) (drop (i + 1) (cuts pw)) =
        cuts pw ! (i + 1) # take (fi - (i + 1)) (drop (i + 1 + 1) (cuts pw))"
    proof -
      have "drop (i + 1) (cuts pw) = cuts pw ! (i + 1) # drop (i + 1 + 1) (cuts pw)"
        using i(2) len by (simp add: Cons_nth_drop_Suc)
      moreover have "fi - i = Suc (fi - (i + 1))" using fib by auto
      ultimately show ?thesis by simp
    qed
    have c2: "cuts ?r2 = lo # take (fi - i) (drop (i + 1) (cuts pw))"
      unfolding tk by simp
    have l2: "last (cuts ?r2) = cuts pw ! fi"
      unfolding c2 using last_take_drop [of i fi "cuts pw"] fib fi(2) len by simp
    have wf: "cuts pw ! (fi + 1) - cuts pw ! fi \<noteq> 0"
      using mono [of fi "fi + 1"] fi(2) len by simp
    have fl: "cuts pw ! fi < hi" using fib by simp
    have p3: "piece_of ops pw fi (last (cuts ?r2)) hi ?head"
      unfolding piece_of_def l2
      using fi(2) fib head_piece_value [OF _ fl wf] by auto
    have rr: "refines ops pw (?r2\<lparr>cuts := cuts ?r2 @ [hi], segs := segs ?r2 @ [?head]\<rparr>)"
      using refines_snoc [OF r2 p3] .
    have eq: "?r2\<lparr>cuts := cuts ?r2 @ [hi], segs := segs ?r2 @ [?head]\<rparr> =
      \<lparr>cuts = lo # take (fi - i) (drop (i + 1) (cuts pw)) @ [hi],
       segs = ?tail # take (fi - (i + 1)) (drop (i + 1) (segs pw)) @ [?head]\<rparr>"
      unfolding tk by simp
    have "refines ops pw
      \<lparr>cuts = lo # take (fi - i) (drop (i + 1) (cuts pw)) @ [hi],
       segs = ?tail # take (fi - (i + 1)) (drop (i + 1) (segs pw)) @ [?head]\<rparr>"
      using rr unfolding eq .
    then show ?thesis using res by simp
  qed
qed

text \<open>
  C6 as stated, for \<open>lo \<le> t \<le> hi\<close>: with \<open>lo = hi\<close> the guard at the top of \<open>portion\<close>
  returns the empty function, and evaluating the empty function reads \<open>cuts[0]\<close> of an
  empty vector, while \<open>f\<close> has a value there.
\<close>

theorem portion_equal_endpoints_has_no_value:
  "portion_pw poly_ops \<lparr>cuts = [0, 1], segs = [[1]]\<rparr> (1 / 2) (1 / 2) = Inr Piecewise_empty \<and>
   valueAt poly_ops (Piecewise_empty :: real list Piecewise) (1 / 2) = Inl OutOfBounds \<and>
   valueAt poly_ops \<lparr>cuts = [0, 1], segs = [[1]]\<rparr> (1 / 2) = Inr 1"
  by (simp add: portion_pw_def Piecewise_empty_def valueAt_def segN_def size_pw_def
      segN_loop.simps mid_of_def signed_divide_int_def segT_def poly_ops_def
      cong: bind_err_weak_cong)

text \<open>
  Where \<open>hi\<close> is an interior cut, the result of \<open>portion\<close> has as many cuts as segments
  (see C1), and evaluating it reads \<open>cuts[size()]\<close> past the end.
\<close>

lemma portion_at_interior_cut_has_no_value:
  "valueAt ops \<lparr>cuts = [1 / 2, 1], segs = [s0, s1]\<rparr> (3 / 4) = Inl OutOfBounds"
  by (simp add: valueAt_def segN_def size_pw_def cong: bind_err_weak_cong)

text \<open>
  C6 (amended). For a non-empty function \<open>f\<close> that meets the invariants, exact segment
  restriction, \<open>lo < hi\<close> both inside the domain of \<open>f\<close>, \<open>hi\<close> not an interior cut of \<open>f\<close>,
  and \<open>lo \<le> t \<le> hi\<close>: \<open>portion(f, lo, hi)\<close> returns a function whose value at \<open>t\<close> is the
  value of \<open>f\<close> at \<open>t\<close>.
\<close>

theorem portion_pointwise:
  assumes ex: "exact_portion ops"
    and inv: "invariants f" and ne: "segs f \<noteq> []"
    and lt: "lo < hi" and lod: "hd (cuts f) \<le> lo" and hid: "hi \<le> last (cuts f)"
    and nc: "hi \<in> set (cuts f) \<longrightarrow> hi = last (cuts f)"
    and t: "lo \<le> t" "t \<le> hi"
  shows "\<exists>r v. portion_pw ops f lo hi = Inr r \<and> valueAt ops f t = Inr v \<and>
           valueAt ops r t = Inr v"
proof -
  let ?n = "length (segs f)"
  have srt: "sorted_wrt (<) (cuts f)" and len: "length (cuts f) = ?n + 1"
    using invariants_sorted [OF inv ne] by simp_all
  have cne: "cuts f \<noteq> []" using len by auto
  have lastn: "last (cuts f) = cuts f ! ?n" using cne len by (simp add: last_conv_nth)
  have nc': "hi \<notin> set (cuts f) \<or> cuts f ! ?n \<le> hi" using nc lastn by auto
  obtain r where r: "portion_pw ops f lo hi = Inr r" "refines ops f r"
    "cuts r \<noteq> []" "hd (cuts r) = lo" "last (cuts r) = hi"
    using portion_pw_refines [OF srt len ne lt nc', of ops] by blast
  have rlen: "length (cuts r) = length (segs r) + 1" using r(2) by (simp add: refines_def)
  have r0: "cuts r ! 0 = lo" using r(3,4) by (simp add: hd_conv_nth)
  have rm: "cuts r ! length (segs r) = hi" using r(3,5) rlen by (simp add: last_conv_nth)
  have rne: "segs r \<noteq> []"
  proof
    assume "segs r = []"
    then have "cuts r ! 0 = cuts r ! length (segs r)" by simp
    then show False using r0 rm lt by simp
  qed
  have l: "t < cuts r ! 0 \<longrightarrow> cuts r ! 0 \<le> cuts f ! 0" using r0 t(1) by simp
  have h: "cuts r ! length (segs r) \<le> t \<longrightarrow>
        cuts f ! ?n \<le> cuts r ! length (segs r) \<or>
        (t = cuts r ! length (segs r) \<and> t \<notin> set (cuts f))"
    using rm t(2) nc' by auto
  have eq: "valueAt ops r t = valueAt ops f t"
    using refines_valueAt [OF ex srt len r(2) rne l h] .
  obtain k where "valueAt ops f t = Inr (seg_value ops f k t)"
    using valueAt_spec [OF srt len ne, of t ops] by blast
  then show ?thesis using r(1) eq by simp
qed

theorem portion_pointwise_witness:
  "exact_portion poly_ops \<and>
   invariants \<lparr>cuts = [0, 1, 2], segs = [[1], [0, 1 :: real]]\<rparr> \<and>
   (\<exists>r v. portion_pw poly_ops \<lparr>cuts = [0, 1, 2], segs = [[1], [0, 1]]\<rparr> (1 / 4) (3 / 2) = Inr r \<and>
       valueAt poly_ops \<lparr>cuts = [0, 1, 2], segs = [[1], [0, 1]]\<rparr> 1 = Inr v \<and>
       valueAt poly_ops r 1 = Inr v)"
proof -
  let ?f = "\<lparr>cuts = [0, 1, 2], segs = [[1], [0, 1 :: real]]\<rparr>"
  have inv: "invariants ?f" by (simp add: invariants_iff less_Suc_eq)
  have "\<exists>r v. portion_pw poly_ops ?f (1 / 4) (3 / 2) = Inr r \<and>
       valueAt poly_ops ?f 1 = Inr v \<and> valueAt poly_ops r 1 = Inr v"
    by (rule portion_pointwise [OF poly_ops_exact_portion inv]) simp_all
  then show ?thesis using poly_ops_exact_portion inv by simp
qed

subsection \<open>When partition reads out of range\<close>

text \<open>
  With every extra cut before the domain, the first loop of \<open>partition\<close> consumes all of
  them and then reads \<open>c[c.size()]\<close>: the concrete input of C10 is no accident. In every
  other case (lemma \<open>partition_pw_refines\<close>) \<open>partition\<close> returns.
\<close>

lemma partition_before_all_before:
  assumes len: "length (cuts pw) = length (segs pw) + 1"
    and ne: "segs pw \<noteq> []"
    and c: "sorted_wrt (<) c"
    and bf: "\<forall>j<length c. c ! j < hd (cuts pw)"
  shows "ci \<le> length c \<Longrightarrow> cuts ret = [] \<or> ci = length c \<or> last (cuts ret) < c ! ci \<Longrightarrow>
     partition_before ops pw c ci ret = Inl OutOfBounds"
proof (induction "length c - ci" arbitrary: ci ret)
  case 0
  then have "ci = length c" by simp
  then show ?case by (subst partition_before.simps) simp
next
  case (Suc k)
  then have ci: "ci < length c" by simp
  have cne: "cuts pw \<noteq> []" using len by auto
  have xlt: "c ! ci < hd (cuts pw)" using bf ci by simp
  have n0: "0 < length (segs pw)" using ne by simp
  define isLast where "isLast = (ci = length c - 1)"
  define to where "to = (if isLast then hd (cuts pw) else c ! (ci + 1))"
  have il: "(if ci = length c - 1 then Inr True
             else bind_err (rd c (ci + 1)) (\<lambda>y. Inr (hd (cuts pw) \<le> y))) = Inr isLast"
  proof (cases "ci = length c - 1")
    case True
    then show ?thesis by (simp add: isLast_def)
  next
    case False
    then have "ci + 1 < length c" using ci by simp
    then show ?thesis using bf False by (auto simp: isLast_def not_le)
  qed
  have tor: "(if isLast then Inr (hd (cuts pw)) else rd c (ci + 1)) = Inr to"
    using ci by (auto simp: to_def isLast_def)
  obtain s where ep: "elem_portion ops pw 0 (c ! ci) to = Inr s"
    using elem_portion_ok [OF n0 len] by blast
  let ?ret1 = "ret\<lparr>cuts := cuts ret @ [c ! ci], segs := segs ret @ [s]\<rparr>"
  have pc: "push_cut (c ! ci) ret = Inr (ret\<lparr>cuts := cuts ret @ [c ! ci]\<rparr>)"
    using Suc.prems(2) ci by (auto simp: push_cut_def)
  have step: "partition_before ops pw c ci ret = partition_before ops pw c (ci + 1) ?ret1"
    by (subst partition_before.simps)
      (use cne xlt ci il tor pc ep in \<open>simp add: push_seg_def split del: if_split\<close>)
  have k: "k = length c - (ci + 1)" using Suc.hyps(2) by simp
  have nx: "cuts ?ret1 = [] \<or> ci + 1 = length c \<or> last (cuts ?ret1) < c ! (ci + 1)"
    using sorted_wrt_nth_less [OF c, of ci "ci + 1"] ci by (cases "ci + 1 = length c") auto
  have "partition_before ops pw c (ci + 1) ?ret1 = Inl OutOfBounds"
    using Suc.hyps(1) [OF k _ nx] ci by simp
  then show ?case using step by simp
qed

lemma partition_pw_all_before:
  assumes inv: "invariants pw" and ne: "segs pw \<noteq> []"
    and c: "sorted_wrt (<) c" and cne: "c \<noteq> []"
    and bf: "last c < hd (cuts pw)"
  shows "partition_pw ops pw c = Inl OutOfBounds"
proof -
  have len: "length (cuts pw) = length (segs pw) + 1"
    using invariants_sorted [OF inv ne] by simp
  have all: "\<forall>j<length c. c ! j < hd (cuts pw)"
  proof (intro allI impI)
    fix j assume j: "j < length c"
    have "c ! j \<le> c ! (length c - 1)"
      using strict_sorted_ends(2) [OF c, of "c ! j"] j by simp
    then show "c ! j < hd (cuts pw)" using bf cne by (simp add: last_conv_nth)
  qed
  have "partition_before ops pw c 0 Piecewise_empty = Inl OutOfBounds"
    using partition_before_all_before [OF len ne c all, of 0 Piecewise_empty ops]
    by (simp add: Piecewise_empty_def)
  then show ?thesis using cne ne by (simp add: partition_pw_def empty_pw_def)
qed

subsection \<open>Mutual refinement\<close>

text \<open>
  The first loop of \<open>partition\<close> evaluates \<open>c[ci]\<close> before \<open>ci < c.size()\<close>. When every extra
  cut lies before the domain, the last evaluation of the condition reads \<open>c[c.size()]\<close>,
  and the value read is discarded: \<open>ci < c.size()\<close> is false, so the condition is false
  whatever \<open>c[ci]\<close> was. \<open>partition_pw\<close> stops at that read. To follow the code past it,
  \<open>partition_any\<close> takes the value found past the end of \<open>c\<close> as a parameter \<open>junk\<close>: it
  is \<open>partition_pw\<close> with that one read replaced, and nothing else changed.
\<close>

definition rd_any :: "'a \<Rightarrow> 'a list \<Rightarrow> nat \<Rightarrow> error + 'a" where
  "rd_any junk xs i = Inr (if i < length xs then xs ! i else junk)"

function partition_before_any ::
  "real \<Rightarrow> 's Fragment \<Rightarrow> 's Piecewise \<Rightarrow> real list \<Rightarrow> nat \<Rightarrow> 's Piecewise \<Rightarrow>
   error + (nat \<times> 's Piecewise)" where
  "partition_before_any junk ops pw c ci ret =
     bind_err (rd_any junk c ci) (\<lambda>x.
     bind_err (vfront (cuts pw)) (\<lambda>f.
       if x < f \<and> ci < length c then
         bind_err (if ci = length c - 1 then Inr True
                   else bind_err (rd c (ci + 1)) (\<lambda>y. Inr (y \<ge> f))) (\<lambda>isLast.
         bind_err (push_cut x ret) (\<lambda>ret1.
         bind_err (if isLast then Inr f else rd c (ci + 1)) (\<lambda>to.
         bind_err (elem_portion ops pw 0 x to) (\<lambda>s.
           partition_before_any junk ops pw c (ci + 1) (push_seg s ret1)))))
       else Inr (ci, ret)))"
  by pat_completeness auto
termination
  by (relation "measure (\<lambda>(junk, ops, pw, c, ci, ret). length c - ci)") auto

declare partition_before_any.simps [simp del]

definition partition_any ::
  "real \<Rightarrow> 's Fragment \<Rightarrow> 's Piecewise \<Rightarrow> real list \<Rightarrow> error + 's Piecewise" where
  "partition_any junk ops pw c =
     (if c = [] then Inr pw
      else if empty_pw pw then
        Inr \<lparr>cuts = c, segs = replicate (length c - 1) (seg_default ops)\<rparr>
      else
        bind_err (partition_before_any junk ops pw c 0 Piecewise_empty) (\<lambda>(ci, ret).
        bind_err (rd (cuts pw) 0) (\<lambda>c0.
        bind_err (push_cut c0 ret) (\<lambda>ret1.
          partition_main ops pw c 0 ci c0 ret1))))"

text \<open>Whatever \<open>partition_pw\<close> returns, \<open>partition_any\<close> returns too, for every \<open>junk\<close>.\<close>

lemma partition_before_any_agrees:
  "partition_before ops pw c ci ret = Inr r \<Longrightarrow>
   partition_before_any junk ops pw c ci ret = Inr r"
proof (induction "length c - ci" arbitrary: ci ret)
  case 0
  then have "length c \<le> ci" by simp
  then have "partition_before ops pw c ci ret = Inl OutOfBounds"
    by (subst partition_before.simps) simp
  then show ?case using "0.prems" by simp
next
  case (Suc k)
  then have ci: "ci < length c" by simp
  have k: "\<And>ret'. partition_before ops pw c (ci + 1) ret' = Inr r \<Longrightarrow>
      partition_before_any junk ops pw c (ci + 1) ret' = Inr r"
    using Suc.hyps(1) [of "ci + 1"] Suc.hyps(2) by simp
  have "partition_before ops pw c ci ret = Inr r" by (rule Suc.prems)
  then show ?case
    by (subst partition_before_any.simps, subst (asm) partition_before.simps)
      (use ci k in \<open>auto simp: rd_any_def bind_err_eq_Inr split: if_splits\<close>)
qed

lemma partition_any_agrees:
  "partition_pw ops pw c = Inr r \<Longrightarrow> partition_any junk ops pw c = Inr r"
  unfolding partition_pw_def partition_any_def
  by (auto simp: bind_err_eq_Inr split: if_splits dest: partition_before_any_agrees [where junk = junk])

text \<open>
  The first loop in closed form, as \<open>partition_before_result\<close>, now also when it consumes
  every extra cut (\<open>m = length c\<close>).
\<close>

lemma partition_before_any_result:
  assumes len: "length (cuts pw) = length (segs pw) + 1"
    and ne: "segs pw \<noteq> []"
    and c: "sorted_wrt (<) c"
    and m: "m \<le> length c" "\<forall>j<m. c ! j < hd (cuts pw)" "m < length c \<longrightarrow> hd (cuts pw) \<le> c ! m"
  shows "ci \<le> m \<Longrightarrow> cuts ret = [] \<or> ci = m \<or> last (cuts ret) < c ! ci \<Longrightarrow>
     partition_before_any junk ops pw c ci ret =
       Inr (m, ret\<lparr>cuts := cuts ret @ map ((!) c) [ci..<m],
                    segs := segs ret @ map (before_seg ops pw c m) [ci..<m]\<rparr>)"
proof (induction "m - ci" arbitrary: ci ret)
  case 0
  then have ci: "ci = m" by simp
  have cne: "cuts pw \<noteq> []" using len by auto
  have stop: "((if m < length c then c ! m else junk) < hd (cuts pw) \<and> m < length c) = False"
    using m(3) by auto
  show ?case
    by (subst partition_before_any.simps)
      (use ci cne in \<open>simp add: rd_any_def stop split del: if_split\<close>)
next
  case (Suc k)
  then have ci: "ci < m" by simp
  have cne: "cuts pw \<noteq> []" using len by auto
  have xlt: "c ! ci < hd (cuts pw)" using m(2) ci by simp
  have cil: "ci < length c" using ci m(1) by simp
  have isl: "(if ci = length c - 1 then Inr True
              else bind_err (rd c (ci + 1)) (\<lambda>y. Inr (hd (cuts pw) \<le> y))) = Inr (ci + 1 = m)"
  proof (cases "ci = length c - 1")
    case True
    then have "ci + 1 = m" using ci m(1) by simp
    then show ?thesis using True by simp
  next
    case False
    then have in_range: "ci + 1 < length c" using cil by simp
    have "(hd (cuts pw) \<le> c ! (ci + 1)) = (ci + 1 = m)"
    proof (cases "ci + 1 = m")
      case True
      then show ?thesis using m(3) in_range by simp
    next
      case False
      then have "ci + 1 < m" using ci by simp
      then show ?thesis using m(2) by auto
    qed
    then show ?thesis using False in_range by simp
  qed
  have to: "(if ci + 1 = m then Inr (hd (cuts pw)) else rd c (ci + 1)) =
      Inr (before_to pw c m (ci + 1))"
    using ci m(1) by (auto simp: before_to_def)
  have n0: "0 < length (segs pw)" using ne by simp
  have ep: "elem_portion ops pw 0 (c ! ci) (before_to pw c m (ci + 1)) = Inr (before_seg ops pw c m ci)"
    using elem_portion_ok [OF n0 len] by (simp add: before_seg_def)
  let ?ret1 = "ret\<lparr>cuts := cuts ret @ [c ! ci], segs := segs ret @ [before_seg ops pw c m ci]\<rparr>"
  have pc: "push_cut (c ! ci) ret = Inr (ret\<lparr>cuts := cuts ret @ [c ! ci]\<rparr>)"
    using Suc.prems(2) ci by (auto simp: push_cut_def)
  have step: "partition_before_any junk ops pw c ci ret =
      partition_before_any junk ops pw c (ci + 1) ?ret1"
    by (subst partition_before_any.simps)
      (use cne xlt cil isl to pc ep in \<open>simp add: rd_any_def push_seg_def split del: if_split\<close>)
  have k: "k = m - (ci + 1)" using Suc.hyps(2) by simp
  have nx: "cuts ?ret1 = [] \<or> ci + 1 = m \<or> last (cuts ?ret1) < c ! (ci + 1)"
  proof (cases "ci + 1 = m")
    case False
    then have "ci + 1 < length c" using ci m(1) by simp
    then show ?thesis using sorted_wrt_nth_less [OF c, of ci "ci + 1"] by simp
  qed simp
  have "partition_before_any junk ops pw c (ci + 1) ?ret1 =
      Inr (m, ?ret1\<lparr>cuts := cuts ?ret1 @ map ((!) c) [ci + 1..<m],
                    segs := segs ?ret1 @ map (before_seg ops pw c m) [ci + 1..<m]\<rparr>)"
    using Suc.hyps(1) [OF k _ nx] ci by simp
  moreover have "[ci..<m] = ci # [ci + 1..<m]" using ci by (simp add: upt_conv_Cons)
  ultimately show ?case using step by simp
qed

text \<open>
  So \<open>partition_any\<close> returns for all sorted extra cuts, reaching the domain or not, and
  the result refines \<open>pw\<close> and has the cuts of \<open>pw\<close> and the extra cuts.
\<close>

lemma partition_any_refines:
  assumes srt: "sorted_wrt (<) (cuts pw)"
    and len: "length (cuts pw) = length (segs pw) + 1"
    and ne: "segs pw \<noteq> []"
    and c: "sorted_wrt (<) c" and cne: "c \<noteq> []"
  shows "\<exists>r. partition_any junk ops pw c = Inr r \<and> refines ops pw r \<and>
           set (cuts r) = set (cuts pw) \<union> set c"
proof -
  let ?f = "hd (cuts pw)" and ?n = "length (segs pw)"
  define m where "m = length (takeWhile (\<lambda>x. x < ?f) c)"
  have pne: "cuts pw \<noteq> []" using len by auto
  have hd0: "?f = cuts pw ! 0" using pne by (simp add: hd_conv_nth)
  have n0: "0 < ?n" using ne by simp
  have mle: "m \<le> length c"
    using length_takeWhile_le [of "\<lambda>x. x < ?f" c] by (simp add: m_def)
  have mb: "\<forall>j<m. c ! j < ?f"
  proof (intro allI impI)
    fix j assume j: "j < m"
    then have "takeWhile (\<lambda>x. x < ?f) c ! j \<in> set (takeWhile (\<lambda>x. x < ?f) c)"
      by (simp add: m_def)
    then have "takeWhile (\<lambda>x. x < ?f) c ! j < ?f" by (metis set_takeWhileD)
    then show "c ! j < ?f" using j by (simp add: m_def takeWhile_nth)
  qed
  have mge: "m < length c \<longrightarrow> ?f \<le> c ! m"
    using nth_length_takeWhile [of "\<lambda>x. x < ?f" c] by (auto simp: m_def)
  let ?retB = "\<lparr>cuts = map ((!) c) [0..<m], segs = map (before_seg ops pw c m) [0..<m]\<rparr>"
  have before: "partition_before_any junk ops pw c 0 Piecewise_empty = Inr (m, ?retB)"
    using partition_before_any_result [OF len ne c mle mb mge, of 0 Piecewise_empty junk ops]
    by (simp add: Piecewise_empty_def)
  let ?ret1 = "\<lparr>cuts = map (before_to pw c m) [0..<m + 1], segs = map (before_seg ops pw c m) [0..<m]\<rparr>"
  have bt: "map (before_to pw c m) [0..<m + 1] = map ((!) c) [0..<m] @ [cuts pw ! 0]"
    using hd0 by (simp add: before_to_def)
  have lastB: "m = 0 \<or> last (map ((!) c) [0..<m]) < cuts pw ! 0"
  proof (cases "m = 0")
    case False
    then have "last (map ((!) c) [0..<m]) = c ! (m - 1)" by (simp add: last_map last_upt)
    then show ?thesis using mb False hd0 by simp
  qed simp
  have pc: "push_cut (cuts pw ! 0) ?retB = Inr ?ret1"
    unfolding bt using lastB by (auto simp: push_cut_def)
  have eq: "partition_any junk ops pw c = partition_main ops pw c 0 m (cuts pw ! 0) ?ret1"
    using cne ne before pne pc by (simp add: partition_any_def empty_pw_def)
  have r1: "refines ops pw ?ret1"
    using before_refines [OF srt len ne c mle mb, of m] by simp
  have l1: "last (cuts ?ret1) = cuts pw ! 0" unfolding bt by simp
  have w01: "cuts pw ! 0 < cuts pw ! (0 + 1)"
    using sorted_wrt_nth_less [OF srt, of 0 1] n0 len by simp
  have ge: "\<forall>j. m \<le> j \<and> j < length c \<longrightarrow> cuts pw ! 0 \<le> c ! j"
  proof (intro allI impI)
    fix j assume j: "m \<le> j \<and> j < length c"
    show "cuts pw ! 0 \<le> c ! j"
      using mge hd0 sorted_wrt_nth_less [OF c, of m j] j by (cases "j = m") auto
  qed
  obtain r where r: "partition_main ops pw c 0 m (cuts pw ! 0) ?ret1 = Inr r" "refines ops pw r"
    "set (cuts r) = set (cuts ?ret1) \<union> set (drop (0 + 1) (cuts pw)) \<union> set (drop m c)"
    using partition_main_refines [OF srt len ne c r1 l1, of 0 m] mle w01 ge by auto
  have s1: "set (cuts ?ret1) = set (take m c) \<union> {cuts pw ! 0}"
    unfolding Piecewise.simps bt using map_nth_take [of m c] mle by simp
  have s2: "{cuts pw ! 0} \<union> set (drop (0 + 1) (cuts pw)) = set (cuts pw)"
    using pne by (cases "cuts pw") simp_all
  have s3: "set (take m c) \<union> set (drop m c) = set c"
    by (metis append_take_drop_id set_append)
  have "set (cuts r) = set (cuts pw) \<union> set c"
    using r(3) s1 s2 s3 by auto
  then show ?thesis using eq r(1,2) by simp
qed

text \<open>
  C4. For non-empty \<open>a\<close> and \<open>b\<close> that meet the invariants, overlapping or not,
  \<open>partition(a, b.cuts)\<close> and \<open>partition(b, a.cuts)\<close> both return, whatever value the read
  past the end of the extra cuts finds, and their cut sequences are equal: both are the
  cuts of \<open>a\<close> and of \<open>b\<close> in increasing order, one segment between consecutive cuts. The
  model that stops at a read out of range returns the very same functions, or stops with
  \<open>OutOfBounds\<close> at the read of C10; it never fails otherwise.
\<close>

theorem partition_cuts_agree:
  assumes a: "invariants a" "segs a \<noteq> []" and b: "invariants b" "segs b \<noteq> []"
  shows "\<exists>pa pb.
      partition_any junk1 ops a (cuts b) = Inr pa \<and> partition_any junk2 ops b (cuts a) = Inr pb \<and>
      cuts pa = cuts pb \<and> length (segs pa) = length (segs pb) \<and>
      sorted_wrt (<) (cuts pa) \<and> length (cuts pa) = length (segs pa) + 1 \<and>
      set (cuts pa) = set (cuts a) \<union> set (cuts b) \<and>
      (partition_pw ops a (cuts b) = Inr pa \<or> partition_pw ops a (cuts b) = Inl OutOfBounds) \<and>
      (partition_pw ops b (cuts a) = Inr pb \<or> partition_pw ops b (cuts a) = Inl OutOfBounds)"
proof -
  have sa: "sorted_wrt (<) (cuts a)" and la: "length (cuts a) = length (segs a) + 1"
    using invariants_sorted [OF a] by simp_all
  have sb: "sorted_wrt (<) (cuts b)" and lb: "length (cuts b) = length (segs b) + 1"
    using invariants_sorted [OF b] by simp_all
  have nea: "cuts a \<noteq> []" and neb: "cuts b \<noteq> []" using la lb by auto
  obtain pa where pa: "partition_any junk1 ops a (cuts b) = Inr pa" "refines ops a pa"
    "set (cuts pa) = set (cuts a) \<union> set (cuts b)"
    using partition_any_refines [OF sa la a(2) sb neb] by blast
  obtain pb where pb: "partition_any junk2 ops b (cuts a) = Inr pb" "refines ops b pb"
    "set (cuts pb) = set (cuts b) \<union> set (cuts a)"
    using partition_any_refines [OF sb lb b(2) sa nea] by blast
  have spa: "sorted_wrt (<) (cuts pa)" and lpa: "length (cuts pa) = length (segs pa) + 1"
    using pa(2) by (simp_all add: refines_def)
  have spb: "sorted_wrt (<) (cuts pb)" and lpb: "length (cuts pb) = length (segs pb) + 1"
    using pb(2) by (simp_all add: refines_def)
  have "set (cuts pa) = set (cuts pb)" using pa(3) pb(3) by auto
  then have eq: "cuts pa = cuts pb"
    using spa spb by (intro sorted_distinct_set_unique) (simp_all add: strict_sorted_iff)
  then have ls: "length (segs pa) = length (segs pb)" using lpa lpb by simp
  have strict_a: "partition_pw ops a (cuts b) = Inr pa \<or> partition_pw ops a (cuts b) = Inl OutOfBounds"
  proof (cases "hd (cuts a) \<le> last (cuts b)")
    case True
    obtain r where r: "partition_pw ops a (cuts b) = Inr r"
      using partition_pw_refines [OF sa la a(2) sb neb True] by blast
    then have "r = pa" using partition_any_agrees [OF r, of junk1] pa(1) by simp
    then show ?thesis using r by simp
  next
    case False
    then show ?thesis using partition_pw_all_before [OF a sb neb] by simp
  qed
  have strict_b: "partition_pw ops b (cuts a) = Inr pb \<or> partition_pw ops b (cuts a) = Inl OutOfBounds"
  proof (cases "hd (cuts b) \<le> last (cuts a)")
    case True
    obtain r where r: "partition_pw ops b (cuts a) = Inr r"
      using partition_pw_refines [OF sb lb b(2) sa nea True] by blast
    then have "r = pb" using partition_any_agrees [OF r, of junk2] pb(1) by simp
    then show ?thesis using r by simp
  next
    case False
    then show ?thesis using partition_pw_all_before [OF b sa nea] by simp
  qed
  show ?thesis
    using pa(1,3) pb(1) eq ls spa lpa strict_a strict_b by blast
qed

text \<open>
  Two functions with disjoint domains, \<open>a\<close> over [5, 6] and \<open>b\<close> over [0, 1]. Refining \<open>a\<close>
  by the cuts of \<open>b\<close> runs the first loop twice, reads \<open>c[2]\<close>, leaves the loop and copies
  the segment of \<open>a\<close>; refining \<open>b\<close> by the cuts of \<open>a\<close> runs the last loop twice.
\<close>

lemma partition_any_disjoint_domains:
  "partition_any junk ops \<lparr>cuts = [5, 6], segs = [sa]\<rparr> [0, 1] =
     Inr \<lparr>cuts = [0, 1, 5, 6],
          segs = [seg_portion ops sa (- 5) (- 4), seg_portion ops sa (- 4) 0, sa]\<rparr>"
  "partition_any junk ops \<lparr>cuts = [0, 1], segs = [sb]\<rparr> [5, 6] =
     Inr \<lparr>cuts = [0, 1, 5, 6],
          segs = [sb, seg_portion ops sb 1 5, seg_portion ops sb 5 6]\<rparr>"
  by (simp_all add: partition_any_def empty_pw_def partition_before_any.simps Piecewise_empty_def
      rd_any_def push_cut_def elem_portion_def size_pw_def push_seg_def partition_main.simps
      partition_after.simps push_def rest_from_def cong: bind_err_weak_cong)

theorem partition_cuts_agree_witness:
  "invariants \<lparr>cuts = [5, 6], segs = [[1, 2 :: real]]\<rparr> \<and>
   invariants \<lparr>cuts = [0, 1], segs = [[3 :: real]]\<rparr> \<and>
   (\<exists>pa pb.
      partition_any 0 poly_ops \<lparr>cuts = [5, 6], segs = [[1, 2]]\<rparr> [0, 1] = Inr pa \<and>
      partition_any 7 poly_ops \<lparr>cuts = [0, 1], segs = [[3]]\<rparr> [5, 6] = Inr pb \<and>
      cuts pa = cuts pb \<and> length (segs pa) = length (segs pb) \<and>
      set (cuts pa) = {0, 1, 5, 6})"
proof -
  let ?a = "\<lparr>cuts = [5, 6], segs = [[1, 2 :: real]]\<rparr>"
  let ?b = "\<lparr>cuts = [0, 1], segs = [[3 :: real]]\<rparr>"
  have ia: "invariants ?a" by (simp add: invariants_iff)
  have ib: "invariants ?b" by (simp add: invariants_iff)
  have "\<exists>pa pb.
      partition_any 0 poly_ops ?a (cuts ?b) = Inr pa \<and> partition_any 7 poly_ops ?b (cuts ?a) = Inr pb \<and>
      cuts pa = cuts pb \<and> length (segs pa) = length (segs pb) \<and>
      sorted_wrt (<) (cuts pa) \<and> length (cuts pa) = length (segs pa) + 1 \<and>
      set (cuts pa) = set (cuts ?a) \<union> set (cuts ?b) \<and>
      (partition_pw poly_ops ?a (cuts ?b) = Inr pa \<or>
       partition_pw poly_ops ?a (cuts ?b) = Inl OutOfBounds) \<and>
      (partition_pw poly_ops ?b (cuts ?a) = Inr pb \<or>
       partition_pw poly_ops ?b (cuts ?a) = Inl OutOfBounds)"
    by (rule partition_cuts_agree [OF ia _ ib]) simp_all
  then obtain pa pb where
      "partition_any 0 poly_ops ?a (cuts ?b) = Inr pa" "partition_any 7 poly_ops ?b (cuts ?a) = Inr pb"
      "cuts pa = cuts pb" "length (segs pa) = length (segs pb)"
      "set (cuts pa) = set (cuts ?a) \<union> set (cuts ?b)"
    by blast
  then have "\<exists>pa pb.
      partition_any 0 poly_ops ?a [0, 1] = Inr pa \<and> partition_any 7 poly_ops ?b [5, 6] = Inr pb \<and>
      cuts pa = cuts pb \<and> length (segs pa) = length (segs pb) \<and>
      set (cuts pa) = {0, 1, 5, 6}"
    by (intro exI [of _ pa] exI [of _ pb]) auto
  then show ?thesis using ia ib by simp
qed

subsection \<open>Other operations of C1 that keep the invariants\<close>

text \<open>
  \<open>remove_short_cuts(f, tol)\<close> and \<open>operator+=(Piecewise, output_type)\<close>. Whatever they
  return meets \<open>invariants()\<close>; the failure of C1 is in \<open>portion\<close>.
\<close>

fun remove_short_cuts_loop ::
  "'s Piecewise \<Rightarrow> real \<Rightarrow> nat \<Rightarrow> nat \<Rightarrow> 's Piecewise \<Rightarrow> error + 's Piecewise" where
  "remove_short_cuts_loop f tol i 0 ret = Inr ret"
| "remove_short_cuts_loop f tol i (Suc k) ret =
     bind_err (rd (cuts f) (i + 1)) (\<lambda>cj.
     bind_err (rd (cuts f) i) (\<lambda>ci.
       if cj - ci \<ge> tol then
         bind_err (rd (segs f) i) (\<lambda>s.
         bind_err (push s cj ret) (\<lambda>ret1.
           remove_short_cuts_loop f tol (i + 1) k ret1))
       else remove_short_cuts_loop f tol (i + 1) k ret))"

definition remove_short_cuts :: "'s Piecewise \<Rightarrow> real \<Rightarrow> error + 's Piecewise" where
  "remove_short_cuts f tol =
     bind_err (rd (cuts f) 0) (\<lambda>c0.
     bind_err (push_cut c0 Piecewise_empty) (\<lambda>ret.
       remove_short_cuts_loop f tol 0 (size_pw f) ret))"

definition offset_assign :: "'s Fragment \<Rightarrow> 's Piecewise \<Rightarrow> real \<Rightarrow> error + 's Piecewise" where
  "offset_assign ops a b =
     (if empty_pw a then
        bind_err (push_cut 0 a) (\<lambda>a1. push (seg_const ops b) 1 a1)
      else Inr (a\<lparr>segs := map (\<lambda>s. seg_offset ops s b) (segs a)\<rparr>))"

lemma assert_bind_eq_Inr:
  "bind_err (assert_that b) f = Inr r \<longleftrightarrow> b \<and> f () = Inr r"
  by (cases b) simp_all

definition well_formed :: "'s Piecewise \<Rightarrow> bool" where
  "well_formed pw \<longleftrightarrow> length (cuts pw) = length (segs pw) + 1 \<and> sorted_wrt (<) (cuts pw)"

lemma well_formed_invariants: "well_formed pw \<Longrightarrow> invariants pw"
  using sorted_wrt_nth_less [of "(<)" "cuts pw"] by (simp add: well_formed_def invariants_iff)

lemma push_well_formed:
  "well_formed ret \<Longrightarrow> push s x ret = Inr r \<Longrightarrow> well_formed r \<and> last (cuts r) = x"
proof -
  assume wf: "well_formed ret" and p: "push s x ret = Inr r"
  have len: "length (cuts ret) = length (segs ret) + 1" and srt: "sorted_wrt (<) (cuts ret)"
    using wf by (simp_all add: well_formed_def)
  have ne: "cuts ret \<noteq> []" using len by auto
  have lt: "last (cuts ret) < x"
    using p len ne by (auto simp: push_def push_cut_def push_seg_def assert_bind_eq_Inr)
  have r: "r = ret\<lparr>cuts := cuts ret @ [x], segs := segs ret @ [s]\<rparr>"
    using p push_ok [OF len lt, of s] by simp
  have "\<forall>y\<in>set (cuts ret). y < x"
  proof
    fix y assume "y \<in> set (cuts ret)"
    then have "y \<le> cuts ret ! (length (cuts ret) - 1)"
      using strict_sorted_ends(2) [OF srt] by simp
    then show "y < x" using lt ne by (simp add: last_conv_nth)
  qed
  then show ?thesis using r len srt by (simp add: well_formed_def sorted_wrt_append)
qed

lemma remove_short_cuts_loop_well_formed:
  "well_formed ret \<Longrightarrow> remove_short_cuts_loop f tol i k ret = Inr r \<Longrightarrow> well_formed r"
proof (induction k arbitrary: i ret)
  case 0
  then show ?case by simp
next
  case (Suc k)
  from Suc.prems(2) obtain cj ci where rd: "rd (cuts f) (i + 1) = Inr cj" "rd (cuts f) i = Inr ci"
    and rest: "(if cj - ci \<ge> tol then
         bind_err (rd (segs f) i) (\<lambda>s.
         bind_err (push s cj ret) (\<lambda>ret1.
           remove_short_cuts_loop f tol (i + 1) k ret1))
       else remove_short_cuts_loop f tol (i + 1) k ret) = Inr r"
    by (auto simp: bind_err_eq_Inr)
  show ?case
  proof (cases "cj - ci \<ge> tol")
    case True
    then obtain s ret1 where "push s cj ret = Inr ret1"
      "remove_short_cuts_loop f tol (i + 1) k ret1 = Inr r"
      using rest by (auto simp: bind_err_eq_Inr)
    then show ?thesis using Suc.IH push_well_formed [OF Suc.prems(1)] by blast
  next
    case False
    then show ?thesis using rest Suc.IH Suc.prems(1) by simp
  qed
qed

lemma remove_short_cuts_invariants:
  "remove_short_cuts f tol = Inr r \<Longrightarrow> invariants r"
proof -
  assume "remove_short_cuts f tol = Inr r"
  then obtain c0 where "remove_short_cuts_loop f tol 0 (size_pw f) \<lparr>cuts = [c0], segs = []\<rparr> = Inr r"
    by (auto simp: remove_short_cuts_def bind_err_eq_Inr push_cut_def Piecewise_empty_def
        assert_bind_eq_Inr)
  moreover have "well_formed (\<lparr>cuts = [c0], segs = []\<rparr> :: 'a Piecewise)"
    by (simp add: well_formed_def)
  ultimately show ?thesis
    using remove_short_cuts_loop_well_formed well_formed_invariants by blast
qed

lemma offset_assign_invariants:
  assumes inv: "invariants a" and res: "offset_assign ops a b = Inr r"
  shows "invariants r"
proof (cases "segs a = []")
  case True
  then obtain a1 where a1: "push_cut 0 a = Inr a1" "push (seg_const ops b) 1 a1 = Inr r"
    using res by (auto simp: offset_assign_def empty_pw_def bind_err_eq_Inr)
  have c1: "cuts a1 = cuts a @ [0]" "segs a1 = []"
    using a1(1) True by (auto simp: push_cut_def assert_bind_eq_Inr)
  have "length (cuts a1) = length (segs a1) + 1"
    using a1(2) by (auto simp: push_def assert_bind_eq_Inr)
  then have "cuts a = []" using c1 by simp
  then have "well_formed a1" using c1 by (simp add: well_formed_def)
  then show ?thesis using push_well_formed [OF _ a1(2)] well_formed_invariants by blast
next
  case False
  then have "r = a\<lparr>segs := map (\<lambda>s. seg_offset ops s b) (segs a)\<rparr>"
    using res by (simp add: offset_assign_def empty_pw_def)
  then show ?thesis using inv by (simp add: invariants_iff)
qed

end
